theory Spec2Isabelle
  imports Complex_Main "HOL-Library.AList"
begin

section \<open>Values, move trees and the game interface\<close>

text \<open>
  The searches of \<^verbatim>\<open>search.py\<close> compare board evaluations with the two sentinels
  \<^verbatim>\<open>-math.inf\<close> and \<^verbatim>\<open>math.inf\<close>. A value is therefore a finite number or one of the
  two infinities; finite numbers are rationals (the averages of the stochastic search are
  quotients), an idealisation of Python's numbers without rounding.
\<close>

datatype val = MInf | Fin rat | PInf

instantiation val :: linorder
begin

definition less_eq_val :: "val \<Rightarrow> val \<Rightarrow> bool" where
  "less_eq_val a b =
     (case a of MInf \<Rightarrow> True
      | Fin x \<Rightarrow> (case b of MInf \<Rightarrow> False | Fin y \<Rightarrow> x \<le> y | PInf \<Rightarrow> True)
      | PInf \<Rightarrow> (case b of PInf \<Rightarrow> True | _ \<Rightarrow> False))"

definition less_val :: "val \<Rightarrow> val \<Rightarrow> bool" where
  "less_val a b = (a \<le> b \<and> \<not> b \<le> (a::val))"

instance
proof
  fix x y z :: val
  show "(x < y) = (x \<le> y \<and> \<not> y \<le> x)" by (simp add: less_val_def)
  show "x \<le> x" by (simp add: less_eq_val_def split: val.splits)
  show "x \<le> y \<Longrightarrow> y \<le> z \<Longrightarrow> x \<le> z"
    by (auto simp: less_eq_val_def split: val.splits)
  show "x \<le> y \<Longrightarrow> y \<le> x \<Longrightarrow> x = y"
    by (auto simp: less_eq_val_def split: val.splits)
  show "x \<le> y \<or> y \<le> x"
    by (auto simp: less_eq_val_def split: val.splits)
qed

end

text \<open>
  A move tree is a Python dictionary from move keys to move trees. It is kept as an
  association list in insertion order; \<open>AList.update\<close> is the assignment \<^verbatim>\<open>d[k] = v\<close>
  (an existing key keeps its place, a new key goes to the end).
\<close>

datatype 'k mtree = MTree (entries: "('k \<times> 'k mtree) list")

text \<open>
  The collaborators imported by \<^verbatim>\<open>search.py\<close>: \<^verbatim>\<open>generateMoves\<close> (built on
  \<^verbatim>\<open>chess.lib\<close>), \<^verbatim>\<open>makeMove\<close>, \<^verbatim>\<open>evaluate\<close> and \<^verbatim>\<open>encode\<close>. They are parameters
  of every search; \<open>makeMove\<close> takes the move as a whole instead of its three fields.
\<close>

record ('b, 'f, 'm, 'k) game =
  generateMoves :: "bool \<Rightarrow> 'b \<Rightarrow> 'f \<Rightarrow> 'm list"
  makeMove :: "bool \<Rightarrow> 'b \<Rightarrow> 'm \<Rightarrow> 'f \<Rightarrow> bool \<times> 'b \<times> 'f"
  evaluate :: "'b \<Rightarrow> rat"
  encode :: "'m \<Rightarrow> 'k"

text \<open>
  A search returns \<^verbatim>\<open>(value, moveList, moveTree)\<close>. An element of the move list is a move
  or Python's \<^verbatim>\<open>None\<close> (the initial \<^verbatim>\<open>best_move\<close>).
\<close>

type_synonym ('m, 'k) result = "val \<times> 'm option list \<times> 'k mtree"

text \<open>The locals \<^verbatim>\<open>value\<close>, \<^verbatim>\<open>best_move\<close>, \<^verbatim>\<open>moveList\<close>, \<^verbatim>\<open>moveTree\<close> of one call.\<close>

type_synonym ('m, 'k) locals = "val \<times> 'm option \<times> 'm option list \<times> ('k \<times> 'k mtree) list"

section \<open>Minimax\<close>

text \<open>
  The loop of the branch \<^verbatim>\<open>side == False\<close> (lines 82 to 92); \<open>rec\<close> is the body's
  \<^verbatim>\<open>makeMove\<close> followed by the recursive call.
\<close>

fun minimax_max :: "('m \<Rightarrow> ('m, 'k) result) \<Rightarrow> ('m \<Rightarrow> 'k) \<Rightarrow> 'm list \<Rightarrow> ('m, 'k) locals
    \<Rightarrow> ('m, 'k) locals" where
  "minimax_max rec enc [] st = st"
| "minimax_max rec enc (move # rest) (value, best_move, moveList, moveTree) =
     (case rec move of (recValue, recMoveList, recMoveTree) \<Rightarrow>
        if recValue > value
        then minimax_max rec enc rest
               (recValue, Some move, recMoveList, AList.update (enc move) recMoveTree moveTree)
        else minimax_max rec enc rest
               (value, best_move, moveList, AList.update (enc move) recMoveTree moveTree))"

text \<open>The loop of the branch \<^verbatim>\<open>side == True\<close> (lines 99 to 106).\<close>

fun minimax_min :: "('m \<Rightarrow> ('m, 'k) result) \<Rightarrow> ('m \<Rightarrow> 'k) \<Rightarrow> 'm list \<Rightarrow> ('m, 'k) locals
    \<Rightarrow> ('m, 'k) locals" where
  "minimax_min rec enc [] st = st"
| "minimax_min rec enc (move # rest) (value, best_move, moveList, moveTree) =
     (case rec move of (recValue, recMoveList, recMoveTree) \<Rightarrow>
        if recValue < value
        then minimax_min rec enc rest
               (recValue, Some move, recMoveList, AList.update (enc move) recMoveTree moveTree)
        else minimax_min rec enc rest
               (value, best_move, moveList, AList.update (enc move) recMoveTree moveTree))"

text \<open>
  \<^verbatim>\<open>moveList.insert(0, best_move)\<close> and the return, shared by the searches (lines 110
  to 112 and 187 to 189).
\<close>

fun finish :: "('m, 'k) locals \<Rightarrow> ('m, 'k) result" where
  "finish (value, best_move, moveList, moveTree) = (value, best_move # moveList, MTree moveTree)"

text \<open>\<^verbatim>\<open>minimax(side, board, flags, depth)\<close> for a depth that is not negative.\<close>

fun minimax :: "('b, 'f, 'm, 'k) game \<Rightarrow> bool \<Rightarrow> 'b \<Rightarrow> 'f \<Rightarrow> nat \<Rightarrow> ('m, 'k) result" where
  "minimax g side board flags 0 = (Fin (evaluate g board), [], MTree [])"
| "minimax g side board flags (Suc d) =
     (let possible_moves = generateMoves g side board flags;
          rec = (\<lambda>move. case makeMove g side board move flags of
                   (newside, newboard, newflags) \<Rightarrow> minimax g newside newboard newflags d)
      in if \<not> side
         then finish (minimax_max rec (encode g) possible_moves (MInf, None, [], []))
         else finish (minimax_min rec (encode g) possible_moves (PInf, None, [], [])))"

section \<open>Alpha-beta\<close>

text \<open>
  The loop of the branch \<^verbatim>\<open>side == False\<close> (lines 149 to 164): the recursive call gets
  the current bounds, \<^verbatim>\<open>break\<close> leaves the loop with the locals as they are.
\<close>

fun alphabeta_max :: "('m \<Rightarrow> val \<Rightarrow> val \<Rightarrow> ('m, 'k) result) \<Rightarrow> ('m \<Rightarrow> 'k) \<Rightarrow> 'm list
    \<Rightarrow> ('m, 'k) locals \<Rightarrow> val \<Rightarrow> val \<Rightarrow> ('m, 'k) locals" where
  "alphabeta_max rec enc [] st alpha beta = st"
| "alphabeta_max rec enc (move # rest) (value, best_move, moveList, moveTree) alpha beta =
     (case rec move alpha beta of (recValue, recMoveList, recMoveTree) \<Rightarrow>
        let (value, best_move, moveList) =
              (if recValue > value then (recValue, Some move, recMoveList)
               else (value, best_move, moveList));
            moveTree = AList.update (enc move) recMoveTree moveTree
        in if value \<ge> beta then (value, best_move, moveList, moveTree)
           else alphabeta_max rec enc rest (value, best_move, moveList, moveTree)
                  (if value > alpha then value else alpha) beta)"

text \<open>The loop of the branch \<^verbatim>\<open>side == True\<close> (lines 171 to 183).\<close>

fun alphabeta_min :: "('m \<Rightarrow> val \<Rightarrow> val \<Rightarrow> ('m, 'k) result) \<Rightarrow> ('m \<Rightarrow> 'k) \<Rightarrow> 'm list
    \<Rightarrow> ('m, 'k) locals \<Rightarrow> val \<Rightarrow> val \<Rightarrow> ('m, 'k) locals" where
  "alphabeta_min rec enc [] st alpha beta = st"
| "alphabeta_min rec enc (move # rest) (value, best_move, moveList, moveTree) alpha beta =
     (case rec move alpha beta of (recValue, recMoveList, recMoveTree) \<Rightarrow>
        let (value, best_move, moveList) =
              (if recValue < value then (recValue, Some move, recMoveList)
               else (value, best_move, moveList));
            moveTree = AList.update (enc move) recMoveTree moveTree
        in if value \<le> alpha then (value, best_move, moveList, moveTree)
           else alphabeta_min rec enc rest (value, best_move, moveList, moveTree)
                  alpha (if value < beta then value else beta))"

text \<open>
  \<^verbatim>\<open>alphabeta(side, board, flags, depth, alpha, beta)\<close> for a depth that is not negative;
  the defaults of the last two parameters are \<open>MInf\<close> and \<open>PInf\<close>.
\<close>

fun alphabeta :: "('b, 'f, 'm, 'k) game \<Rightarrow> bool \<Rightarrow> 'b \<Rightarrow> 'f \<Rightarrow> nat \<Rightarrow> val \<Rightarrow> val
    \<Rightarrow> ('m, 'k) result" where
  "alphabeta g side board flags 0 alpha beta = (Fin (evaluate g board), [], MTree [])"
| "alphabeta g side board flags (Suc d) alpha beta =
     (let possible_moves = generateMoves g side board flags;
          rec = (\<lambda>move a b. case makeMove g side board move flags of
                   (newside, newboard, newflags) \<Rightarrow> alphabeta g newside newboard newflags d a b)
      in if \<not> side
         then finish (alphabeta_max rec (encode g) possible_moves (MInf, None, [], []) alpha beta)
         else finish (alphabeta_min rec (encode g) possible_moves (PInf, None, [], []) alpha beta))"


section \<open>Minimax and alpha-beta as Python runs them\<close>

text \<open>
  The exceptions that the searches can raise. \<open>RecursionError\<close> is what Python raises
  when the call stack is used up.
\<close>

datatype error = IndexError | ZeroDivisionError | UnboundLocalError | KeyError | RecursionError

text \<open>
  The same four loops, with a recursive call that may raise: the exception leaves the loop
  and the function.
\<close>

fun minimax_max_py :: "('m \<Rightarrow> error + ('m, 'k) result) \<Rightarrow> ('m \<Rightarrow> 'k) \<Rightarrow> 'm list
    \<Rightarrow> ('m, 'k) locals \<Rightarrow> error + ('m, 'k) locals" where
  "minimax_max_py rec enc [] st = Inr st"
| "minimax_max_py rec enc (move # rest) (value, best_move, moveList, moveTree) =
     (case rec move of
        Inl e \<Rightarrow> Inl e
      | Inr (recValue, recMoveList, recMoveTree) \<Rightarrow>
          if recValue > value
          then minimax_max_py rec enc rest
                 (recValue, Some move, recMoveList, AList.update (enc move) recMoveTree moveTree)
          else minimax_max_py rec enc rest
                 (value, best_move, moveList, AList.update (enc move) recMoveTree moveTree))"

fun minimax_min_py :: "('m \<Rightarrow> error + ('m, 'k) result) \<Rightarrow> ('m \<Rightarrow> 'k) \<Rightarrow> 'm list
    \<Rightarrow> ('m, 'k) locals \<Rightarrow> error + ('m, 'k) locals" where
  "minimax_min_py rec enc [] st = Inr st"
| "minimax_min_py rec enc (move # rest) (value, best_move, moveList, moveTree) =
     (case rec move of
        Inl e \<Rightarrow> Inl e
      | Inr (recValue, recMoveList, recMoveTree) \<Rightarrow>
          if recValue < value
          then minimax_min_py rec enc rest
                 (recValue, Some move, recMoveList, AList.update (enc move) recMoveTree moveTree)
          else minimax_min_py rec enc rest
                 (value, best_move, moveList, AList.update (enc move) recMoveTree moveTree))"

fun alphabeta_max_py :: "('m \<Rightarrow> val \<Rightarrow> val \<Rightarrow> error + ('m, 'k) result) \<Rightarrow> ('m \<Rightarrow> 'k)
    \<Rightarrow> 'm list \<Rightarrow> ('m, 'k) locals \<Rightarrow> val \<Rightarrow> val \<Rightarrow> error + ('m, 'k) locals" where
  "alphabeta_max_py rec enc [] st alpha beta = Inr st"
| "alphabeta_max_py rec enc (move # rest) (value, best_move, moveList, moveTree) alpha beta =
     (case rec move alpha beta of
        Inl e \<Rightarrow> Inl e
      | Inr (recValue, recMoveList, recMoveTree) \<Rightarrow>
          let (value, best_move, moveList) =
                (if recValue > value then (recValue, Some move, recMoveList)
                 else (value, best_move, moveList));
              moveTree = AList.update (enc move) recMoveTree moveTree
          in if value \<ge> beta then Inr (value, best_move, moveList, moveTree)
             else alphabeta_max_py rec enc rest (value, best_move, moveList, moveTree)
                    (if value > alpha then value else alpha) beta)"

fun alphabeta_min_py :: "('m \<Rightarrow> val \<Rightarrow> val \<Rightarrow> error + ('m, 'k) result) \<Rightarrow> ('m \<Rightarrow> 'k)
    \<Rightarrow> 'm list \<Rightarrow> ('m, 'k) locals \<Rightarrow> val \<Rightarrow> val \<Rightarrow> error + ('m, 'k) locals" where
  "alphabeta_min_py rec enc [] st alpha beta = Inr st"
| "alphabeta_min_py rec enc (move # rest) (value, best_move, moveList, moveTree) alpha beta =
     (case rec move alpha beta of
        Inl e \<Rightarrow> Inl e
      | Inr (recValue, recMoveList, recMoveTree) \<Rightarrow>
          let (value, best_move, moveList) =
                (if recValue < value then (recValue, Some move, recMoveList)
                 else (value, best_move, moveList));
              moveTree = AList.update (enc move) recMoveTree moveTree
          in if value \<le> alpha then Inr (value, best_move, moveList, moveTree)
             else alphabeta_min_py rec enc rest (value, best_move, moveList, moveTree)
                    alpha (if value < beta then value else beta))"

text \<open>
  \<^verbatim>\<open>minimax\<close> for any integer depth. The first argument is the number of stack frames
  left: the test \<^verbatim>\<open>depth == 0\<close> is the only one, so a negative depth recurses until the
  moves or the stack run out.
\<close>

fun minimax_py :: "nat \<Rightarrow> ('b, 'f, 'm, 'k) game \<Rightarrow> bool \<Rightarrow> 'b \<Rightarrow> 'f \<Rightarrow> int
    \<Rightarrow> error + ('m, 'k) result" where
  "minimax_py 0 g side board flags depth = Inl RecursionError"
| "minimax_py (Suc stack) g side board flags depth =
     (if depth = 0 then Inr (Fin (evaluate g board), [], MTree [])
      else
        let possible_moves = generateMoves g side board flags;
            rec = (\<lambda>move. case makeMove g side board move flags of
                     (newside, newboard, newflags) \<Rightarrow>
                       minimax_py stack g newside newboard newflags (depth - 1))
        in if \<not> side
           then map_sum id finish (minimax_max_py rec (encode g) possible_moves (MInf, None, [], []))
           else map_sum id finish (minimax_min_py rec (encode g) possible_moves (PInf, None, [], [])))"

fun alphabeta_py :: "nat \<Rightarrow> ('b, 'f, 'm, 'k) game \<Rightarrow> bool \<Rightarrow> 'b \<Rightarrow> 'f \<Rightarrow> int \<Rightarrow> val \<Rightarrow> val
    \<Rightarrow> error + ('m, 'k) result" where
  "alphabeta_py 0 g side board flags depth alpha beta = Inl RecursionError"
| "alphabeta_py (Suc stack) g side board flags depth alpha beta =
     (if depth = 0 then Inr (Fin (evaluate g board), [], MTree [])
      else
        let possible_moves = generateMoves g side board flags;
            rec = (\<lambda>move a b. case makeMove g side board move flags of
                     (newside, newboard, newflags) \<Rightarrow>
                       alphabeta_py stack g newside newboard newflags (depth - 1) a b)
        in if \<not> side
           then map_sum id finish
                  (alphabeta_max_py rec (encode g) possible_moves (MInf, None, [], []) alpha beta)
           else map_sum id finish
                  (alphabeta_min_py rec (encode g) possible_moves (PInf, None, [], []) alpha beta))"

section \<open>Stochastic search\<close>

text \<open>
  \<^verbatim>\<open>chooser\<close> is \<^verbatim>\<open>random.choice\<close> or a stand-in for it: it may raise, and it may answer
  differently each time, so it takes and returns the state \<open>'r\<close> of its random source.
\<close>

type_synonym ('m, 'r) chooser = "'m list \<Rightarrow> 'r \<Rightarrow> error + 'm \<times> 'r"

text \<open>
  \<^verbatim>\<open>random(side, board, flags, chooser)\<close> (lines 22 to 42), the move-generating function
  that the file starts from: one chosen move, or the evaluation of the board when there is
  no move.
\<close>

definition random_move :: "('b, 'f, 'm, 'k) game \<Rightarrow> bool \<Rightarrow> 'b \<Rightarrow> 'f \<Rightarrow> ('m, 'r) chooser \<Rightarrow> 'r
    \<Rightarrow> error + ('m, 'k) result" where
  "random_move g side board flags chooser r =
     (let moves = generateMoves g side board flags
      in if length moves > 0
         then (case chooser moves r of
                 Inl e \<Rightarrow> Inl e
               | Inr (move, r') \<Rightarrow>
                   (case makeMove g side board move flags of
                      (newside, newboard, newflags) \<Rightarrow>
                        Inr (Fin (evaluate g newboard), [Some move],
                             MTree [(encode g move, MTree [])])))
         else Inr (Fin (evaluate g board), [], MTree []))"

text \<open>\<^verbatim>\<open>d.update(other)\<close>: every entry of \<open>other\<close> is assigned into \<open>d\<close>, in order.\<close>

definition dict_update :: "('k \<times> 'v) list \<Rightarrow> ('k \<times> 'v) list \<Rightarrow> ('k \<times> 'v) list" where
  "dict_update d other = fold (\<lambda>kv. AList.update (fst kv) (snd kv)) other d"

text \<open>
  The loop of \<^verbatim>\<open>backtrackPath(mTree, path)\<close> over \<^verbatim>\<open>range(len(path))\<close> (lines 211 to
  215), and its return (line 216): \<^verbatim>\<open>path[-1]\<close> raises on an empty path.
\<close>

fun backtrack_loop :: "('m \<Rightarrow> 'k) \<Rightarrow> 'm list \<Rightarrow> nat list \<Rightarrow> ('k \<times> 'k mtree) list
    \<Rightarrow> error + ('k \<times> 'k mtree) list" where
  "backtrack_loop enc path [] mTree = Inr mTree"
| "backtrack_loop enc path (i # rest) mTree =
     (if i = 0 then backtrack_loop enc path rest (AList.update (enc (path ! i)) (MTree []) mTree)
      else case map_of mTree (enc (path ! (i - 1))) of
             None \<Rightarrow> Inl KeyError
           | Some sub \<Rightarrow>
               backtrack_loop enc path rest
                 (AList.update (enc (path ! i)) (MTree [(enc (path ! (i - 1)), sub)]) mTree))"

definition backtrackPath :: "('m \<Rightarrow> 'k) \<Rightarrow> ('k \<times> 'k mtree) list \<Rightarrow> 'm list \<Rightarrow> error + 'k mtree" where
  "backtrackPath enc mTree path =
     (case backtrack_loop enc path [0..<length path] mTree of
        Inl e \<Rightarrow> Inl e
      | Inr mTree \<Rightarrow>
          if path = [] then Inl IndexError
          else (case map_of mTree (enc (last path)) of
                  None \<Rightarrow> Inl KeyError
                | Some sub \<Rightarrow> Inr (MTree [(enc (last path), sub)])))"

text \<open>
  The \<^verbatim>\<open>while (curr_depth <= depth)\<close> loop of one rollout (lines 238 to 258). It works on
  the locals \<^verbatim>\<open>path\<close>, \<^verbatim>\<open>vals_to_avg\<close> and \<^verbatim>\<open>moveTree\<close>; \<open>r\<close> is the state of the
  chooser's random source. The assignment to \<^verbatim>\<open>value\<close> in the leaf branch is left out: the
  function never reads that variable again.
\<close>

function rollout :: "('b, 'f, 'm, 'k) game \<Rightarrow> ('m, 'r) chooser \<Rightarrow> 'm \<Rightarrow> int \<Rightarrow> int
    \<Rightarrow> bool \<times> 'b \<times> 'f \<Rightarrow> 'm list \<Rightarrow> rat list \<Rightarrow> ('k \<times> 'k mtree) list \<Rightarrow> 'r
    \<Rightarrow> error + 'm list \<times> rat list \<times> ('k \<times> 'k mtree) list \<times> 'r" where
  "rollout g chooser i_move depth curr_depth (i_side, i_board, i_flags) path vals_to_avg moveTree r =
     (if curr_depth \<le> depth then
        if curr_depth = depth then
          (case backtrackPath (encode g) [] path of
             Inl e \<Rightarrow> Inl e
           | Inr child_tree \<Rightarrow>
               (case map_of moveTree (encode g i_move) of
                  None \<Rightarrow> Inl KeyError
                | Some sub \<Rightarrow>
                    Inr (path, vals_to_avg @ [evaluate g i_board],
                         AList.update (encode g i_move)
                           (MTree (dict_update (entries sub) (entries child_tree))) moveTree,
                         r)))
        else
          (case chooser (generateMoves g i_side i_board i_flags) r of
             Inl e \<Rightarrow> Inl e
           | Inr (move, r') \<Rightarrow>
               rollout g chooser i_move depth (curr_depth + 1)
                 (makeMove g i_side i_board move i_flags)
                 (move # path) vals_to_avg moveTree r')
      else Inr (path, vals_to_avg, moveTree, r))"
  by pat_completeness auto
termination
  by (relation "measure (\<lambda>(g, chooser, i_move, depth, curr_depth, rest). nat (depth - curr_depth))")
    auto

text \<open>
  The loop \<^verbatim>\<open>for j in range(breadth)\<close> (lines 233 to 258), run \<open>n\<close> times. \<^verbatim>\<open>path\<close> is
  unbound until the first rollout assigns it.
\<close>

fun rollouts :: "('b, 'f, 'm, 'k) game \<Rightarrow> ('m, 'r) chooser \<Rightarrow> 'm \<Rightarrow> int \<Rightarrow> bool \<times> 'b \<times> 'f
    \<Rightarrow> nat \<Rightarrow> 'm list option \<times> rat list \<times> ('k \<times> 'k mtree) list \<times> 'r
    \<Rightarrow> error + 'm list option \<times> rat list \<times> ('k \<times> 'k mtree) list \<times> 'r" where
  "rollouts g chooser i_move depth initial_move 0 st = Inr st"
| "rollouts g chooser i_move depth initial_move (Suc n) (path, vals_to_avg, moveTree, r) =
     (case rollout g chooser i_move depth 1 initial_move [] vals_to_avg moveTree r of
        Inl e \<Rightarrow> Inl e
      | Inr (path', vals_to_avg', moveTree', r') \<Rightarrow>
          rollouts g chooser i_move depth initial_move n (Some path', vals_to_avg', moveTree', r'))"

text \<open>
  The loop over the initial moves (lines 227 to 270), on the locals \<^verbatim>\<open>moveList\<close>,
  \<^verbatim>\<open>moveTree\<close>, \<^verbatim>\<open>initial_move_averages\<close> and \<^verbatim>\<open>path\<close>.
\<close>

fun first_moves :: "('b, 'f, 'm, 'k) game \<Rightarrow> ('m, 'r) chooser \<Rightarrow> bool \<Rightarrow> 'b \<Rightarrow> 'f \<Rightarrow> int \<Rightarrow> int
    \<Rightarrow> 'm list \<Rightarrow> 'm list list \<times> ('k \<times> 'k mtree) list \<times> rat list \<times> 'm list option \<times> 'r
    \<Rightarrow> error + 'm list list \<times> ('k \<times> 'k mtree) list \<times> rat list \<times> 'm list option \<times> 'r" where
  "first_moves g chooser side board flags depth breadth [] st = Inr st"
| "first_moves g chooser side board flags depth breadth (i_move # rest)
       (moveList, moveTree, initial_move_averages, path, r) =
     (case rollouts g chooser i_move depth (makeMove g side board i_move flags) (nat breadth)
             (path, [], AList.update (encode g i_move) (MTree []) moveTree, r) of
        Inl e \<Rightarrow> Inl e
      | Inr (path, vals_to_avg, moveTree, r) \<Rightarrow>
          (case path of
             None \<Rightarrow> Inl UnboundLocalError
           | Some p \<Rightarrow>
               if length vals_to_avg = 0 then Inl ZeroDivisionError
               else first_moves g chooser side board flags depth breadth rest
                      (moveList @ [i_move # p], moveTree,
                       initial_move_averages @
                         [foldl (+) 0 vals_to_avg / of_nat (length vals_to_avg)],
                       Some (i_move # p), r)))"

text \<open>
  The last loop (lines 274 to 285) over \<^verbatim>\<open>enumerate(initial_move_averages)\<close>, on the
  locals \<^verbatim>\<open>min_idx\<close>, \<^verbatim>\<open>min\<close>, \<^verbatim>\<open>max_idx\<close>, \<^verbatim>\<open>max\<close>.
\<close>

fun select_loop :: "(nat \<times> rat) list \<Rightarrow> nat \<times> val \<times> nat \<times> val \<Rightarrow> nat \<times> val \<times> nat \<times> val" where
  "select_loop [] st = st"
| "select_loop ((i, v) # rest) (min_idx, mn, max_idx, mx) =
     select_loop rest
       (if Fin v < mn then i else min_idx, if Fin v < mn then Fin v else mn,
        if Fin v > mx then i else max_idx, if Fin v > mx then Fin v else mx)"

text \<open>
  \<^verbatim>\<open>stochastic(side, board, flags, depth, breadth, chooser)\<close>; \<open>r\<close> is the state of the
  chooser's random source at the call.
\<close>

definition stochastic :: "('b, 'f, 'm, 'k) game \<Rightarrow> bool \<Rightarrow> 'b \<Rightarrow> 'f \<Rightarrow> int \<Rightarrow> int
    \<Rightarrow> ('m, 'r) chooser \<Rightarrow> 'r \<Rightarrow> error + val \<times> 'm list \<times> 'k mtree" where
  "stochastic g side board flags depth breadth chooser r =
     (case first_moves g chooser side board flags depth breadth
             (generateMoves g side board flags) ([], [], [], None, r) of
        Inl e \<Rightarrow> Inl e
      | Inr (moveList, moveTree, initial_move_averages, path, r') \<Rightarrow>
          (case select_loop (zip [0..<length initial_move_averages] initial_move_averages)
                  (0, PInf, 0, MInf) of
             (min_idx, mn, max_idx, mx) \<Rightarrow>
               if min_idx < length moveList then Inr (mn, moveList ! min_idx, MTree moveTree)
               else Inl IndexError))"

section \<open>Leaf entries and chains\<close>

text \<open>
  The number of leaf entries of a move tree: the entries, at any level, whose own tree is
  empty.
\<close>

fun leaves :: "'k mtree \<Rightarrow> nat" where
  "leaves (MTree kvs) =
     sum_list (map (\<lambda>kv. if snd kv = MTree [] then 1 else leaves (snd kv)) kvs)"

text \<open>
  What an entry contributes to the number of leaf entries of the tree it is in, and the
  sum of the contributions of a list of entries.
\<close>

definition leafc :: "'k mtree \<Rightarrow> nat" where
  "leafc t = (if t = MTree [] then 1 else leaves t)"

definition leaf_sum :: "('k \<times> 'k mtree) list \<Rightarrow> nat" where
  "leaf_sum kvs = sum_list (map (\<lambda>kv. leafc (snd kv)) kvs)"

text \<open>A move sequence unwound into nested nodes of one child each.\<close>

fun chain :: "('m \<Rightarrow> 'k) \<Rightarrow> 'm list \<Rightarrow> 'k mtree" where
  "chain enc [] = MTree []"
| "chain enc (m # ms) = MTree [(enc m, chain enc ms)]"

text \<open>
  Position \<open>i\<close> holds the greatest (the least) value of the list, and no earlier position
  does.
\<close>

definition first_greatest :: "val list \<Rightarrow> nat \<Rightarrow> bool" where
  "first_greatest vs i =
     (i < length vs \<and> (\<forall>j < length vs. vs ! j \<le> vs ! i) \<and> (\<forall>j < i. vs ! j < vs ! i))"

definition first_smallest :: "val list \<Rightarrow> nat \<Rightarrow> bool" where
  "first_smallest vs i =
     (i < length vs \<and> (\<forall>j < length vs. vs ! i \<le> vs ! j) \<and> (\<forall>j < i. vs ! i < vs ! j))"

section \<open>Relations between a minimax run and an alpha-beta run\<close>

text \<open>
  What a call of alphabeta with the window \<open>(alpha, beta)\<close> owes to the call of minimax on
  the same position: a value on the same side of the window, the same value and path when
  the minimax value is inside the window, and the same path when the minimax value is the
  infinity that the window is open to.
\<close>

definition agree :: "val \<Rightarrow> val \<Rightarrow> ('m, 'k) result \<Rightarrow> ('m, 'k) result \<Rightarrow> bool" where
  "agree alpha beta m a =
     ((fst m \<le> alpha \<longrightarrow> fst a \<le> alpha) \<and>
      (beta \<le> fst m \<longrightarrow> beta \<le> fst a) \<and>
      (alpha < fst m \<and> fst m < beta \<longrightarrow> fst a = fst m \<and> fst (snd a) = fst (snd m)) \<and>
      (beta = PInf \<and> fst m = PInf \<longrightarrow> fst (snd a) = fst (snd m)) \<and>
      (alpha = MInf \<and> fst m = MInf \<longrightarrow> fst (snd a) = fst (snd m)))"

text \<open>The same relation between the locals of the two loops when they end.\<close>

fun agree_locals :: "val \<Rightarrow> val \<Rightarrow> ('m, 'k) locals \<Rightarrow> ('m, 'k) locals \<Rightarrow> bool" where
  "agree_locals alpha beta (W, bm, ml, tm) (V, ba, al, ta) =
     ((W \<le> alpha \<longrightarrow> V \<le> alpha) \<and>
      (beta \<le> W \<longrightarrow> beta \<le> V) \<and>
      (alpha < W \<and> W < beta \<longrightarrow> V = W \<and> ba = bm \<and> al = ml) \<and>
      (beta = PInf \<and> W = PInf \<longrightarrow> ba = bm \<and> al = ml) \<and>
      (alpha = MInf \<and> W = MInf \<longrightarrow> ba = bm \<and> al = ml))"

text \<open>
  The loop invariants: the alpha-beta loop has not cut off, its current bound is the
  running best, a value still at the sentinel means that no move has been chosen, and the
  two loops have either the same best move or both a value outside the window.
\<close>

fun inv_max :: "val \<Rightarrow> val \<Rightarrow> val \<Rightarrow> ('m, 'k) locals \<Rightarrow> ('m, 'k) locals \<Rightarrow> bool" where
  "inv_max alpha beta a (W, bm, ml, tm) (V, ba, al, ta) =
     (V < beta \<and> a = max alpha V \<and>
      (W = MInf \<longrightarrow> bm = None \<and> ml = []) \<and> (V = MInf \<longrightarrow> ba = None \<and> al = []) \<and>
      (V = W \<and> ba = bm \<and> al = ml \<or> W \<le> alpha \<and> V \<le> alpha))"

fun inv_min :: "val \<Rightarrow> val \<Rightarrow> val \<Rightarrow> ('m, 'k) locals \<Rightarrow> ('m, 'k) locals \<Rightarrow> bool" where
  "inv_min alpha beta b (W, bm, ml, tm) (V, ba, al, ta) =
     (alpha < V \<and> b = min beta V \<and>
      (W = PInf \<longrightarrow> bm = None \<and> ml = []) \<and> (V = PInf \<longrightarrow> ba = None \<and> al = []) \<and>
      (V = W \<and> ba = bm \<and> al = ml \<or> beta \<le> W \<and> beta \<le> V))"

section \<open>Notions used in the statements about the move tree\<close>

text \<open>
  The recursive call that the loop body makes for a move: \<^verbatim>\<open>makeMove\<close>, then the search
  at the depth below.
\<close>

definition child_minimax :: "('b, 'f, 'm, 'k) game \<Rightarrow> bool \<Rightarrow> 'b \<Rightarrow> 'f \<Rightarrow> nat \<Rightarrow> 'm \<Rightarrow> ('m, 'k) result" where
  "child_minimax g side board flags d move =
     (case makeMove g side board move flags of
        (newside, newboard, newflags) \<Rightarrow> minimax g newside newboard newflags d)"

definition child_alphabeta :: "('b, 'f, 'm, 'k) game \<Rightarrow> bool \<Rightarrow> 'b \<Rightarrow> 'f \<Rightarrow> nat \<Rightarrow> 'm \<Rightarrow> val \<Rightarrow> val
    \<Rightarrow> ('m, 'k) result" where
  "child_alphabeta g side board flags d move alpha beta =
     (case makeMove g side board move flags of
        (newside, newboard, newflags) \<Rightarrow> alphabeta g newside newboard newflags d alpha beta)"

text \<open>
  The loop of alphabeta at depth \<open>d + 1\<close>, from the initial locals, run on any list of
  moves (the generated ones, or the first few of them).
\<close>

definition alphabeta_loop :: "('b, 'f, 'm, 'k) game \<Rightarrow> bool \<Rightarrow> 'b \<Rightarrow> 'f \<Rightarrow> nat \<Rightarrow> 'm list \<Rightarrow> val \<Rightarrow> val
    \<Rightarrow> ('m, 'k) locals" where
  "alphabeta_loop g side board flags d moves alpha beta =
     (if \<not> side
      then alphabeta_max (child_alphabeta g side board flags d) (encode g) moves
             (MInf, None, [], []) alpha beta
      else alphabeta_min (child_alphabeta g side board flags d) (encode g) moves
             (PInf, None, [], []) alpha beta)"

text \<open>The tests before \<^verbatim>\<open>break\<close> (lines 161 and 180).\<close>

definition cutoff :: "bool \<Rightarrow> val \<Rightarrow> val \<Rightarrow> val \<Rightarrow> bool" where
  "cutoff side value alpha beta = (if \<not> side then value \<ge> beta else value \<le> alpha)"

text \<open>
  The assignments \<^verbatim>\<open>moveTree[encode(*move)] = sub\<close> for a list of moves with their
  sub-trees, in order.
\<close>

definition assign_all :: "('m \<Rightarrow> 'k) \<Rightarrow> ('m \<times> 'k mtree) list \<Rightarrow> ('k \<times> 'k mtree) list
    \<Rightarrow> ('k \<times> 'k mtree) list" where
  "assign_all enc pairs moveTree = fold (\<lambda>p. AList.update (enc (fst p)) (snd p)) pairs moveTree"

text \<open>
  The tree \<open>t\<close> is \<open>ta\<close> after the assignments for the first \<open>n\<close> moves of \<open>ms\<close> and
  no others, each with a sub-tree that a recursive call \<open>ra\<close> on that move returned; at
  least one move is recorded when there is one.
\<close>

definition explored :: "('m \<Rightarrow> val \<Rightarrow> val \<Rightarrow> ('m, 'k) result) \<Rightarrow> ('m \<Rightarrow> 'k) \<Rightarrow> 'm list
    \<Rightarrow> ('k \<times> 'k mtree) list \<Rightarrow> ('k \<times> 'k mtree) list \<Rightarrow> nat \<Rightarrow> 'k mtree list \<Rightarrow> bool" where
  "explored ra enc ms ta t n subs =
     (n \<le> length ms \<and> (ms \<noteq> [] \<longrightarrow> 0 < n) \<and> length subs = n \<and>
      t = assign_all enc (zip (take n ms) subs) ta \<and>
      (\<forall>i<n. \<exists>a b. subs ! i = snd (snd (ra (ms ! i) a b))))"

section \<open>Notions used in the statements about the stochastic search\<close>


text \<open>
  The rollouts of one first move, each given by its move sequence in the order of play,
  merged into a sub-tree as line 246 does: each sequence is unwound into a chain and
  assigned with \<^verbatim>\<open>update\<close> under the key of its first move.
\<close>

definition merge_chains :: "('m \<Rightarrow> 'k) \<Rightarrow> 'm list list \<Rightarrow> ('k \<times> 'k mtree) list \<Rightarrow> ('k \<times> 'k mtree) list" where
  "merge_chains enc qs sub = fold (\<lambda>q d. dict_update d (entries (chain enc q))) qs sub"




section \<open>Example games\<close>

text \<open>
  Boards and moves are numbers, a move is the number of the board it leads to, and the
  side alternates. In the first game board 0 has one move, to board 1, which has one move,
  to board 2, where no move is legal.
\<close>

definition stuck_game :: "(nat, unit, nat, nat) game" where
  "stuck_game =
     \<lparr> generateMoves = (\<lambda>side board flags. if board = 0 then [1] else if board = 1 then [2] else []),
       makeMove = (\<lambda>side board move flags. (\<not> side, move, flags)),
       evaluate = (\<lambda>board. of_nat board),
       encode = (\<lambda>move. move) \<rparr>"

text \<open>
  Two plies: board 0 leads to boards 1 and 2, board 1 to the leaves 3 and 4 (worth 5 and 6),
  board 2 to the leaves 5 and 6 (worth 4 and 9).
\<close>

definition pruning_game :: "(nat, unit, nat, nat) game" where
  "pruning_game =
     \<lparr> generateMoves = (\<lambda>side board flags.
          if board = 0 then [1, 2] else if board = 1 then [3, 4] else if board = 2 then [5, 6]
          else []),
       makeMove = (\<lambda>side board move flags. (\<not> side, move, flags)),
       evaluate = (\<lambda>board.
          if board = 3 then 5 else if board = 4 then 6 else if board = 5 then 4 else 9),
       encode = (\<lambda>move. move) \<rparr>"

text \<open>
  A game that never ends: the moves are always 1 and 2, and a move appends its digit to the
  board, which is worth its number.
\<close>

definition walk_game :: "(nat, unit, nat, nat) game" where
  "walk_game =
     \<lparr> generateMoves = (\<lambda>side board flags. [1, 2]),
       makeMove = (\<lambda>side board move flags. (\<not> side, 10 * board + move, flags)),
       evaluate = (\<lambda>board. of_nat board),
       encode = (\<lambda>move. move) \<rparr>"

text \<open>
  A chooser that is not random: its state counts the calls, and call \<open>r\<close> takes the
  candidate at position \<open>r mod n\<close>. On an empty sequence it raises as
  \<^verbatim>\<open>random.choice\<close> does.
\<close>

definition round_robin :: "(nat, nat) chooser" where
  "round_robin moves r =
     (if moves = [] then Inl IndexError else Inr (moves ! (r mod length moves), Suc r))"

section \<open>The order on values\<close>

lemma val_le_simps [simp]:
  "MInf \<le> v" "v \<le> PInf" "(Fin x \<le> Fin y) = (x \<le> y)"
  "(Fin x \<le> MInf) = False" "(PInf \<le> Fin y) = False" "(PInf \<le> MInf) = False"
  "(v \<le> MInf) = (v = MInf)" "(PInf \<le> v) = (v = PInf)"
  by (auto simp: less_eq_val_def split: val.splits)

lemma val_less_simps [simp]:
  "(v < MInf) = False" "(PInf < v) = False" "(Fin x < Fin y) = (x < y)"
  "MInf < Fin x" "Fin x < PInf" "MInf < PInf"
  "(MInf < v) = (v \<noteq> MInf)" "(v < PInf) = (v \<noteq> PInf)"
  by (auto simp: less_val_def less_eq_val_def split: val.splits)

section \<open>The base case\<close>

text \<open>
  C2. At depth 0 minimax and alphabeta return \<^verbatim>\<open>(evaluate(board), [], {})\<close>, for every
  side, board, flags and bounds. The result stays the same when the move generator and
  the transition are replaced by any others: neither is consulted.
\<close>

theorem depth_zero_returns_evaluation:
  "minimax g side board flags 0 = (Fin (evaluate g board), [], MTree []) \<and>
   alphabeta g side board flags 0 alpha beta = (Fin (evaluate g board), [], MTree []) \<and>
   minimax_py (Suc stack) g side board flags 0 = Inr (Fin (evaluate g board), [], MTree []) \<and>
   alphabeta_py (Suc stack) g side board flags 0 alpha beta =
     Inr (Fin (evaluate g board), [], MTree []) \<and>
   minimax (g\<lparr>generateMoves := gen, makeMove := mk\<rparr>) side board flags 0 =
     minimax g side board flags 0 \<and>
   alphabeta (g\<lparr>generateMoves := gen, makeMove := mk\<rparr>) side board flags 0 alpha beta =
     alphabeta g side board flags 0 alpha beta"
  by simp

section \<open>Positions without a legal move\<close>

text \<open>
  With no move to loop over, the locals keep their initial values: the sentinel, the
  \<^verbatim>\<open>None\<close> of \<^verbatim>\<open>best_move\<close> and the empty tree.
\<close>

lemma minimax_no_moves:
  "generateMoves g side board flags = [] \<Longrightarrow>
   minimax g side board flags (Suc d) = (if side then PInf else MInf, [None], MTree [])"
  by simp

lemma alphabeta_no_moves:
  "generateMoves g side board flags = [] \<Longrightarrow>
   alphabeta g side board flags (Suc d) alpha beta = (if side then PInf else MInf, [None], MTree [])"
  by simp

text \<open>
  C3. On board 2 of \<open>stuck_game\<close>, where no move is legal, minimax and alphabeta at depth 1
  agree with each other, but what they return is \<^verbatim>\<open>(-inf, [None], {})\<close> for the side
  \<^verbatim>\<open>False\<close> and \<^verbatim>\<open>(inf, [None], {})\<close> for the side \<^verbatim>\<open>True\<close>: not the evaluation of the
  board, which is 2, and not an empty path. The function \<^verbatim>\<open>random\<close> of the same file
  returns \<^verbatim>\<open>(evaluate(board), [], {})\<close> there.
\<close>

theorem no_moves_returns_sentinel:
  "generateMoves stuck_game False 2 () = [] \<and>
   minimax stuck_game False 2 () 1 = (MInf, [None], MTree []) \<and>
   alphabeta stuck_game False 2 () 1 MInf PInf = (MInf, [None], MTree []) \<and>
   minimax stuck_game True 2 () 1 = (PInf, [None], MTree []) \<and>
   alphabeta stuck_game True 2 () 1 MInf PInf = (PInf, [None], MTree []) \<and>
   Fin (evaluate stuck_game 2) = Fin 2 \<and>
   random_move stuck_game False 2 () round_robin 0 = Inr (Fin 2, [], MTree [])"
  by (simp add: stuck_game_def random_move_def)

text \<open>
  C4. On board 0 of \<open>stuck_game\<close> the side \<^verbatim>\<open>False\<close> has one legal move, to board 1. At
  depth 3 its recursive value is \<^verbatim>\<open>-inf\<close> (it comes from board 2, two plies down, where
  no move is legal), which is not greater than the initial \<^verbatim>\<open>-inf\<close>: the first move does
  not become the best one, and the path returned starts with \<^verbatim>\<open>None\<close>.
\<close>

theorem sentinel_value_chooses_no_move:
  "generateMoves stuck_game False 0 () = [1] \<and>
   minimax stuck_game True 1 () 2 = (MInf, [Some 2, None], MTree [(2, MTree [])]) \<and>
   minimax stuck_game False 0 () 3 = (MInf, [None], MTree [(1, MTree [(2, MTree [])])]) \<and>
   alphabeta stuck_game False 0 () 3 MInf PInf =
     (MInf, [None], MTree [(1, MTree [(2, MTree [])])])"
  by (simp add: stuck_game_def eval_nat_numeral)

section \<open>The selection rule\<close>

text \<open>
  Started from the initial locals, the loop of the side \<^verbatim>\<open>False\<close> ends with the first
  move of the greatest recursive value, its value and its path, provided that some
  recursive value is above \<^verbatim>\<open>-inf\<close>; otherwise it ends with \<^verbatim>\<open>None\<close>. The loop of the
  side \<^verbatim>\<open>True\<close> is symmetric.
\<close>

lemma minimax_max_append:
  "minimax_max rec enc (xs @ ys) st = minimax_max rec enc ys (minimax_max rec enc xs st)"
proof (induction xs arbitrary: st)
  case Nil
  show ?case by simp
next
  case (Cons x xs)
  obtain W bm ml tm where st: "st = (W, bm, ml, tm)" by (cases st)
  obtain tv tp tt where r: "rec x = (tv, tp, tt)" by (cases "rec x")
  show ?case unfolding st using r by (simp add: Cons.IH)
qed

lemma minimax_max_selects:
  "minimax_max rec enc ms (MInf, None, [], []) = (v, best_move, moveList, moveTree) \<Longrightarrow>
   (v = MInf \<and> best_move = None \<and> moveList = [] \<and> (\<forall>m \<in> set ms. fst (rec m) = MInf)) \<or>
   (\<exists>i. first_greatest (map (\<lambda>m. fst (rec m)) ms) i \<and> MInf < v \<and>
        v = fst (rec (ms ! i)) \<and> best_move = Some (ms ! i) \<and>
        moveList = fst (snd (rec (ms ! i))))"
proof (induction ms arbitrary: v best_move moveList moveTree rule: rev_induct)
  case Nil
  then show ?case by simp
next
  case (snoc x ms)
  obtain W bm ml tm where
    prev: "minimax_max rec enc ms (MInf, None, [], []) = (W, bm, ml, tm)"
    by (cases "minimax_max rec enc ms (MInf, None, [], [])")
  obtain tv tp tt where r: "rec x = (tv, tp, tt)" by (cases "rec x")
  from snoc.prems have step:
    "v = (if W < tv then tv else W)" "best_move = (if W < tv then Some x else bm)"
    "moveList = (if W < tv then tp else ml)"
    unfolding minimax_max_append prev using r by (simp_all split: if_splits)
  let ?vs = "map (\<lambda>m. fst (rec m)) ms"
  have vs: "map (\<lambda>m. fst (rec m)) (ms @ [x]) = ?vs @ [tv]" using r by simp
  from snoc.IH[OF prev]
  show ?case
  proof
    assume old: "W = MInf \<and> bm = None \<and> ml = [] \<and> (\<forall>m \<in> set ms. fst (rec m) = MInf)"
    show ?thesis
    proof (cases "tv = MInf")
      case True
      with old step r show ?thesis by simp
    next
      case False
      with old step have now: "v = tv" "best_move = Some x" "moveList = tp" by simp_all
      have "first_greatest (?vs @ [tv]) (length ms)"
        using old False by (auto simp: first_greatest_def nth_append)
      with now False r show ?thesis
        unfolding vs[symmetric] by (intro disjI2 exI[of _ "length ms"]) simp
    qed
  next
    assume "\<exists>i. first_greatest ?vs i \<and> MInf < W \<and> W = fst (rec (ms ! i)) \<and>
        bm = Some (ms ! i) \<and> ml = fst (snd (rec (ms ! i)))"
    then obtain i where i: "first_greatest ?vs i" and W: "MInf < W" "W = fst (rec (ms ! i))"
      and b: "bm = Some (ms ! i)" "ml = fst (snd (rec (ms ! i)))"
      by blast
    note fg = i[unfolded first_greatest_def]
    from fg have il: "i < length ms" by simp
    from fg il have top: "\<forall>j < length ms. ?vs ! j \<le> ?vs ! i" by simp
    from fg il have strict: "\<forall>j < i. ?vs ! j < ?vs ! i" by simp
    from il W have Wi: "?vs ! i = W" by simp
    show ?thesis
    proof (cases "W < tv")
      case True
      with step have now: "v = tv" "best_move = Some x" "moveList = tp" by simp_all
      have "\<forall>j < length (?vs @ [tv]). (?vs @ [tv]) ! j \<le> (?vs @ [tv]) ! length ms"
      proof (intro allI impI)
        fix j assume "j < length (?vs @ [tv])"
        then consider "j < length ms" | "j = length ms" by fastforce
        then show "(?vs @ [tv]) ! j \<le> (?vs @ [tv]) ! length ms"
        proof cases
          case 1
          with top Wi True have "?vs ! j \<le> tv" by fastforce
          with 1 show ?thesis by (simp add: nth_append)
        next
          case 2
          then show ?thesis by simp
        qed
      qed
      moreover have "\<forall>j < length ms. (?vs @ [tv]) ! j < (?vs @ [tv]) ! length ms"
      proof (intro allI impI)
        fix j assume j: "j < length ms"
        with top Wi True have "?vs ! j < tv" by fastforce
        with j show "(?vs @ [tv]) ! j < (?vs @ [tv]) ! length ms" by (simp add: nth_append)
      qed
      ultimately have "first_greatest (?vs @ [tv]) (length ms)"
        by (simp add: first_greatest_def)
      moreover from True W have "MInf < tv" by auto
      ultimately show ?thesis using now r
        unfolding vs[symmetric] by (intro disjI2 exI[of _ "length ms"]) simp
    next
      case False
      with step have now: "v = W" "best_move = bm" "moveList = ml" by simp_all
      have "\<forall>j < length (?vs @ [tv]). (?vs @ [tv]) ! j \<le> (?vs @ [tv]) ! i"
      proof (intro allI impI)
        fix j assume "j < length (?vs @ [tv])"
        then consider "j < length ms" | "j = length ms" by fastforce
        then show "(?vs @ [tv]) ! j \<le> (?vs @ [tv]) ! i"
        proof cases
          case 1
          with top il show ?thesis by (simp add: nth_append)
        next
          case 2
          with False il Wi show ?thesis by (simp add: nth_append)
        qed
      qed
      moreover have "\<forall>j < i. (?vs @ [tv]) ! j < (?vs @ [tv]) ! i"
        using strict il by (simp add: nth_append)
      ultimately have "first_greatest (?vs @ [tv]) i"
        using il by (simp add: first_greatest_def)
      with now W b il show ?thesis
        unfolding vs[symmetric] by (intro disjI2 exI[of _ i]) (simp add: nth_append)
    qed
  qed
qed

lemma minimax_min_append:
  "minimax_min rec enc (xs @ ys) st = minimax_min rec enc ys (minimax_min rec enc xs st)"
proof (induction xs arbitrary: st)
  case Nil
  show ?case by simp
next
  case (Cons x xs)
  obtain W bm ml tm where st: "st = (W, bm, ml, tm)" by (cases st)
  obtain tv tp tt where r: "rec x = (tv, tp, tt)" by (cases "rec x")
  show ?case unfolding st using r by (simp add: Cons.IH)
qed

lemma minimax_min_selects:
  "minimax_min rec enc ms (PInf, None, [], []) = (v, best_move, moveList, moveTree) \<Longrightarrow>
   (v = PInf \<and> best_move = None \<and> moveList = [] \<and> (\<forall>m \<in> set ms. fst (rec m) = PInf)) \<or>
   (\<exists>i. first_smallest (map (\<lambda>m. fst (rec m)) ms) i \<and> v < PInf \<and>
        v = fst (rec (ms ! i)) \<and> best_move = Some (ms ! i) \<and>
        moveList = fst (snd (rec (ms ! i))))"
proof (induction ms arbitrary: v best_move moveList moveTree rule: rev_induct)
  case Nil
  then show ?case by simp
next
  case (snoc x ms)
  obtain W bm ml tm where
    prev: "minimax_min rec enc ms (PInf, None, [], []) = (W, bm, ml, tm)"
    by (cases "minimax_min rec enc ms (PInf, None, [], [])")
  obtain tv tp tt where r: "rec x = (tv, tp, tt)" by (cases "rec x")
  from snoc.prems have step:
    "v = (if tv < W then tv else W)" "best_move = (if tv < W then Some x else bm)"
    "moveList = (if tv < W then tp else ml)"
    unfolding minimax_min_append prev using r by (simp_all split: if_splits)
  let ?vs = "map (\<lambda>m. fst (rec m)) ms"
  have vs: "map (\<lambda>m. fst (rec m)) (ms @ [x]) = ?vs @ [tv]" using r by simp
  from snoc.IH[OF prev]
  show ?case
  proof
    assume old: "W = PInf \<and> bm = None \<and> ml = [] \<and> (\<forall>m \<in> set ms. fst (rec m) = PInf)"
    show ?thesis
    proof (cases "tv = PInf")
      case True
      with old step r show ?thesis by simp
    next
      case False
      with old step have now: "v = tv" "best_move = Some x" "moveList = tp" by simp_all
      have "first_smallest (?vs @ [tv]) (length ms)"
        using old False by (auto simp: first_smallest_def nth_append)
      with now False r show ?thesis
        unfolding vs[symmetric] by (intro disjI2 exI[of _ "length ms"]) simp
    qed
  next
    assume "\<exists>i. first_smallest ?vs i \<and> W < PInf \<and> W = fst (rec (ms ! i)) \<and>
        bm = Some (ms ! i) \<and> ml = fst (snd (rec (ms ! i)))"
    then obtain i where i: "first_smallest ?vs i" and W: "W < PInf" "W = fst (rec (ms ! i))"
      and b: "bm = Some (ms ! i)" "ml = fst (snd (rec (ms ! i)))"
      by blast
    note fg = i[unfolded first_smallest_def]
    from fg have il: "i < length ms" by simp
    from fg il have top: "\<forall>j < length ms. ?vs ! i \<le> ?vs ! j" by simp
    from fg il have strict: "\<forall>j < i. ?vs ! i < ?vs ! j" by simp
    from il W have Wi: "?vs ! i = W" by simp
    show ?thesis
    proof (cases "tv < W")
      case True
      with step have now: "v = tv" "best_move = Some x" "moveList = tp" by simp_all
      have "\<forall>j < length (?vs @ [tv]). (?vs @ [tv]) ! length ms \<le> (?vs @ [tv]) ! j"
      proof (intro allI impI)
        fix j assume "j < length (?vs @ [tv])"
        then consider "j < length ms" | "j = length ms" by fastforce
        then show "(?vs @ [tv]) ! length ms \<le> (?vs @ [tv]) ! j"
        proof cases
          case 1
          with top Wi True have "tv \<le> ?vs ! j" by fastforce
          with 1 show ?thesis by (simp add: nth_append)
        next
          case 2
          then show ?thesis by simp
        qed
      qed
      moreover have "\<forall>j < length ms. (?vs @ [tv]) ! length ms < (?vs @ [tv]) ! j"
      proof (intro allI impI)
        fix j assume j: "j < length ms"
        with top Wi True have "tv < ?vs ! j" by fastforce
        with j show "(?vs @ [tv]) ! length ms < (?vs @ [tv]) ! j" by (simp add: nth_append)
      qed
      ultimately have "first_smallest (?vs @ [tv]) (length ms)"
        by (simp add: first_smallest_def)
      moreover from True W have "tv < PInf" by auto
      ultimately show ?thesis using now r
        unfolding vs[symmetric] by (intro disjI2 exI[of _ "length ms"]) simp
    next
      case False
      with step have now: "v = W" "best_move = bm" "moveList = ml" by simp_all
      have "\<forall>j < length (?vs @ [tv]). (?vs @ [tv]) ! i \<le> (?vs @ [tv]) ! j"
      proof (intro allI impI)
        fix j assume "j < length (?vs @ [tv])"
        then consider "j < length ms" | "j = length ms" by fastforce
        then show "(?vs @ [tv]) ! i \<le> (?vs @ [tv]) ! j"
        proof cases
          case 1
          with top il show ?thesis by (simp add: nth_append)
        next
          case 2
          with False il Wi show ?thesis by (simp add: nth_append)
        qed
      qed
      moreover have "\<forall>j < i. (?vs @ [tv]) ! i < (?vs @ [tv]) ! j"
        using strict il by (simp add: nth_append)
      ultimately have "first_smallest (?vs @ [tv]) i"
        using il by (simp add: first_smallest_def)
      with now W b il show ?thesis
        unfolding vs[symmetric] by (intro disjI2 exI[of _ i]) (simp add: nth_append)
    qed
  qed
qed

section \<open>Alpha-beta returns the value and the path of minimax\<close>

lemma minimax_max_mono:
  "minimax_max rm enc ms (W, bm, ml, tm) = (W', bm', ml', tm') \<Longrightarrow> W \<le> W'"
proof (induction ms arbitrary: W bm ml tm)
  case Nil
  then show ?case by simp
next
  case (Cons m ms)
  obtain tv tp tt where r: "rm m = (tv, tp, tt)" by (cases "rm m")
  show ?case
  proof (cases "W < tv")
    case True
    with Cons.prems r have "minimax_max rm enc ms (tv, Some m, tp, AList.update (enc m) tt tm) = (W', bm', ml', tm')"
      by simp
    from Cons.IH[OF this] True show ?thesis by simp
  next
    case False
    with Cons.prems r have "minimax_max rm enc ms (W, bm, ml, AList.update (enc m) tt tm) = (W', bm', ml', tm')"
      by simp
    from Cons.IH[OF this] show ?thesis .
  qed
qed

lemma minimax_max_top:
  "minimax_max rm enc ms (PInf, bm, ml, tm) = (W', bm', ml', tm') \<Longrightarrow> W' = PInf \<and> bm' = bm \<and> ml' = ml"
proof (induction ms arbitrary: tm)
  case Nil
  then show ?case by simp
next
  case (Cons m ms)
  obtain tv tp tt where r: "rm m = (tv, tp, tt)" by (cases "rm m")
  from Cons.prems r have "minimax_max rm enc ms (PInf, bm, ml, AList.update (enc m) tt tm) = (W', bm', ml', tm')"
    by simp
  from Cons.IH[OF this] show ?case .
qed

lemma alphabeta_max_Cons:
  "ra m a beta = (rv, rp, rt) \<Longrightarrow>
   alphabeta_max ra enc (m # ms) (V, ba, al, ta) a beta =
     (if beta \<le> (if V < rv then rv else V)
      then (if V < rv then rv else V, if V < rv then Some m else ba, if V < rv then rp else al,
            AList.update (enc m) rt ta)
      else alphabeta_max ra enc ms
             (if V < rv then rv else V, if V < rv then Some m else ba, if V < rv then rp else al,
              AList.update (enc m) rt ta)
             (if a < (if V < rv then rv else V) then (if V < rv then rv else V) else a) beta)"
  by (simp add: Let_def)

lemma minimax_max_Cons:
  "rm m = (tv, tp, tt) \<Longrightarrow>
   minimax_max rm enc (m # ms) (W, bm, ml, tm) =
     minimax_max rm enc ms
       (if W < tv then tv else W, if W < tv then Some m else bm, if W < tv then tp else ml,
        AList.update (enc m) tt tm)"
  by simp

lemma alphabeta_max_agree:
  assumes "\<forall>m \<in> set ms. \<forall>a b. a < b \<longrightarrow> agree a b (rm m) (ra m a b)"
    and "alpha < beta"
    and "inv_max alpha beta a (W, bm, ml, tm) (V, ba, al, ta)"
  shows "agree_locals alpha beta (minimax_max rm enc ms (W, bm, ml, tm))
           (alphabeta_max ra enc ms (V, ba, al, ta) a beta)"
  using assms
proof (induction ms arbitrary: W bm ml tm V ba al ta a)
  case Nil
  then show ?case by auto
next
  case (Cons m ms)
  obtain tv tp tt where rm: "rm m = (tv, tp, tt)" by (cases "rm m")
  obtain rv rp rt where ra: "ra m a beta = (rv, rp, rt)" by (cases "ra m a beta")
  from Cons.prems(3) have ab: "a < beta" and a: "a = max alpha V" and Vb: "V < beta"
    using Cons.prems(2) by auto
  from Cons.prems(1) ab have "agree a beta (rm m) (ra m a beta)" by simp
  with rm ra have ag:
    "tv \<le> a \<longrightarrow> rv \<le> a" "beta \<le> tv \<longrightarrow> beta \<le> rv"
    "a < tv \<and> tv < beta \<longrightarrow> rv = tv \<and> rp = tp"
    "beta = PInf \<and> tv = PInf \<longrightarrow> rp = tp"
    by (simp_all add: agree_def)
  have kids: "\<forall>m \<in> set ms. \<forall>a b. a < b \<longrightarrow> agree a b (rm m) (ra m a b)"
    using Cons.prems(1) by simp
  define W1 where "W1 = (if W < tv then tv else W)"
  define bm1 where "bm1 = (if W < tv then Some m else bm)"
  define ml1 where "ml1 = (if W < tv then tp else ml)"
  define V1 where "V1 = (if V < rv then rv else V)"
  define ba1 where "ba1 = (if V < rv then Some m else ba)"
  define al1 where "al1 = (if V < rv then rp else al)"
  have mm: "minimax_max rm enc (m # ms) (W, bm, ml, tm) =
      minimax_max rm enc ms (W1, bm1, ml1, AList.update (enc m) tt tm)"
    unfolding W1_def bm1_def ml1_def using rm by (rule minimax_max_Cons)
  have step: "alphabeta_max ra enc (m # ms) (V, ba, al, ta) a beta =
     (if beta \<le> V1 then (V1, ba1, al1, AList.update (enc m) rt ta)
      else alphabeta_max ra enc ms (V1, ba1, al1, AList.update (enc m) rt ta)
             (if a < V1 then V1 else a) beta)"
    unfolding V1_def ba1_def al1_def using ra by (rule alphabeta_max_Cons)
  show ?case
  proof (cases "beta \<le> V1")
    case True
    have abv: "alphabeta_max ra enc (m # ms) (V, ba, al, ta) a beta =
        (V1, ba1, al1, AList.update (enc m) rt ta)"
      using True step by simp
    from True Vb have rvb: "beta \<le> rv" "V < rv" by (auto simp: V1_def split: if_splits)
    have tvb: "beta \<le> tv"
    proof (rule ccontr)
      assume "\<not> beta \<le> tv"
      then have lt: "tv < beta" by simp
      show False
      proof (cases "tv \<le> a")
        case True
        with ag(1) have "rv \<le> a" by simp
        with ab rvb(1) show False by simp
      next
        case False
        with lt ag(3) have "rv = tv" by simp
        with lt rvb(1) show False by simp
      qed
    qed
    obtain W' bm' ml' tm' where fin:
      "minimax_max rm enc ms (W1, bm1, ml1, AList.update (enc m) tt tm) = (W', bm', ml', tm')"
      by (cases "minimax_max rm enc ms (W1, bm1, ml1, AList.update (enc m) tt tm)")
    have "W1 \<le> W'" using minimax_max_mono[OF fin] .
    moreover have "tv \<le> W1" by (auto simp: W1_def)
    ultimately have bW: "beta \<le> W'" using tvb by simp
    have WltB: "W < beta" using Cons.prems(2,3) by auto
    have top: "beta = PInf \<Longrightarrow> bm' = ba1 \<and> ml' = al1"
    proof -
      assume b: "beta = PInf"
      with tvb have tv: "tv = PInf" by simp
      with b rvb have rv: "rv = PInf" by simp
      from WltB b tv have "W < tv" by simp
      then have "W1 = PInf" "bm1 = Some m" "ml1 = tp" using tv by (simp_all add: W1_def bm1_def ml1_def)
      with fin minimax_max_top[of rm enc ms "Some m" tp _ W' bm' ml' tm'] have "bm' = Some m" "ml' = tp"
        by auto
      moreover from ag b tv have "rp = tp" by simp
      ultimately show ?thesis using rvb by (simp add: ba1_def al1_def)
    qed
    have "agree_locals alpha beta (W', bm', ml', tm') (V1, ba1, al1, AList.update (enc m) rt ta)"
      using bW True top Cons.prems(2) by auto
    then show ?thesis
      unfolding mm abv fin .
  next
    case False
    have abv: "alphabeta_max ra enc (m # ms) (V, ba, al, ta) a beta =
        alphabeta_max ra enc ms (V1, ba1, al1, AList.update (enc m) rt ta) (if a < V1 then V1 else a) beta"
      using False step by simp
    from False have V1b: "V1 < beta" by simp
    have VV1: "V \<le> V1" by (auto simp: V1_def)
    have rV1: "rv \<le> V1" by (auto simp: V1_def)
    have tvb: "tv < beta"
    proof (rule ccontr)
      assume "\<not> tv < beta"
      with ag(2) have "beta \<le> rv" by simp
      with rV1 V1b show False by simp
    qed
    have a': "(if a < V1 then V1 else a) = max alpha V1"
      using a VV1 by (auto simp: max_def)
    have sW: "W1 = MInf \<longrightarrow> bm1 = None \<and> ml1 = []"
      using Cons.prems(3) by (auto simp: W1_def bm1_def ml1_def)
    have sV: "V1 = MInf \<longrightarrow> ba1 = None \<and> al1 = []"
      using Cons.prems(3) by (auto simp: V1_def ba1_def al1_def)
    from Cons.prems(3) have old: "V = W \<and> ba = bm \<and> al = ml \<or> W \<le> alpha \<and> V \<le> alpha"
      by simp
    have rel: "V1 = W1 \<and> ba1 = bm1 \<and> al1 = ml1 \<or> W1 \<le> alpha \<and> V1 \<le> alpha"
    proof (cases "tv \<le> a")
      case True
      with ag(1) have rva: "rv \<le> a" by simp
      from old show ?thesis
      proof
        assume eq: "V = W \<and> ba = bm \<and> al = ml"
        show ?thesis
        proof (cases "V < rv")
          case True
          with rva a have aa: "a = alpha" "V < alpha" by (auto simp: max_def split: if_splits)
          with rva \<open>tv \<le> a\<close> eq have "W1 \<le> alpha" "V1 \<le> alpha"
            by (auto simp: W1_def V1_def)
          then show ?thesis by simp
        next
          case nV: False
          show ?thesis
          proof (cases "W < tv")
            case True
            with \<open>tv \<le> a\<close> eq a have aa: "a = alpha" "V < alpha" by (auto simp: max_def split: if_splits)
            with rva \<open>tv \<le> a\<close> eq have "W1 \<le> alpha" "V1 \<le> alpha"
              by (auto simp: W1_def V1_def)
            then show ?thesis by simp
          next
            case False
            with nV eq show ?thesis
              by (simp add: W1_def V1_def bm1_def ba1_def ml1_def al1_def)
          qed
        qed
      next
        assume lo: "W \<le> alpha \<and> V \<le> alpha"
        with a have "a = alpha" by (auto simp: max_def)
        with rva \<open>tv \<le> a\<close> lo have "W1 \<le> alpha" "V1 \<le> alpha"
          by (auto simp: W1_def V1_def)
        then show ?thesis by simp
      qed
    next
      case False
      then have atv: "a < tv" by simp
      with tvb ag(3) have r: "rv = tv" "rp = tp" by simp_all
      from a have "V \<le> a" "alpha \<le> a" by (auto simp: max_def)
      with atv have Vtv: "V < tv" and alt: "alpha < tv" by simp_all
      from old alt Vtv have "W < tv" by auto
      with Vtv r show ?thesis
        by (simp add: W1_def V1_def bm1_def ba1_def ml1_def al1_def)
    qed
    have "inv_max alpha beta (if a < V1 then V1 else a) (W1, bm1, ml1, AList.update (enc m) tt tm)
        (V1, ba1, al1, AList.update (enc m) rt ta)"
      using V1b a' sW sV rel by simp
    from Cons.IH[OF kids Cons.prems(2) this] show ?thesis
      unfolding mm abv .
  qed
qed

lemma alphabeta_min_Cons:
  "ra m alpha b = (rv, rp, rt) \<Longrightarrow>
   alphabeta_min ra enc (m # ms) (V, ba, al, ta) alpha b =
     (if (if rv < V then rv else V) \<le> alpha
      then (if rv < V then rv else V, if rv < V then Some m else ba, if rv < V then rp else al,
            AList.update (enc m) rt ta)
      else alphabeta_min ra enc ms
             (if rv < V then rv else V, if rv < V then Some m else ba, if rv < V then rp else al,
              AList.update (enc m) rt ta)
             alpha (if (if rv < V then rv else V) < b then (if rv < V then rv else V) else b))"
  by (simp add: Let_def)

lemma minimax_min_Cons:
  "rm m = (tv, tp, tt) \<Longrightarrow>
   minimax_min rm enc (m # ms) (W, bm, ml, tm) =
     minimax_min rm enc ms
       (if tv < W then tv else W, if tv < W then Some m else bm, if tv < W then tp else ml,
        AList.update (enc m) tt tm)"
  by simp

lemma minimax_min_mono:
  "minimax_min rm enc ms (W, bm, ml, tm) = (W', bm', ml', tm') \<Longrightarrow> W' \<le> W"
proof (induction ms arbitrary: W bm ml tm)
  case Nil
  then show ?case by simp
next
  case (Cons m ms)
  obtain tv tp tt where r: "rm m = (tv, tp, tt)" by (cases "rm m")
  show ?case
  proof (cases "tv < W")
    case True
    with Cons.prems r have "minimax_min rm enc ms (tv, Some m, tp, AList.update (enc m) tt tm) = (W', bm', ml', tm')"
      by simp
    from Cons.IH[OF this] True show ?thesis by simp
  next
    case False
    with Cons.prems r have "minimax_min rm enc ms (W, bm, ml, AList.update (enc m) tt tm) = (W', bm', ml', tm')"
      by simp
    from Cons.IH[OF this] show ?thesis .
  qed
qed

lemma minimax_min_bot:
  "minimax_min rm enc ms (MInf, bm, ml, tm) = (W', bm', ml', tm') \<Longrightarrow> W' = MInf \<and> bm' = bm \<and> ml' = ml"
proof (induction ms arbitrary: tm)
  case Nil
  then show ?case by simp
next
  case (Cons m ms)
  obtain tv tp tt where r: "rm m = (tv, tp, tt)" by (cases "rm m")
  from Cons.prems r have "minimax_min rm enc ms (MInf, bm, ml, AList.update (enc m) tt tm) = (W', bm', ml', tm')"
    by simp
  from Cons.IH[OF this] show ?case .
qed

lemma alphabeta_min_agree:
  assumes "\<forall>m \<in> set ms. \<forall>a b. a < b \<longrightarrow> agree a b (rm m) (ra m a b)"
    and "alpha < beta"
    and "inv_min alpha beta b (W, bm, ml, tm) (V, ba, al, ta)"
  shows "agree_locals alpha beta (minimax_min rm enc ms (W, bm, ml, tm))
           (alphabeta_min ra enc ms (V, ba, al, ta) alpha b)"
  using assms
proof (induction ms arbitrary: W bm ml tm V ba al ta b)
  case Nil
  then show ?case by auto
next
  case (Cons m ms)
  obtain tv tp tt where rm: "rm m = (tv, tp, tt)" by (cases "rm m")
  obtain rv rp rt where ra: "ra m alpha b = (rv, rp, rt)" by (cases "ra m alpha b")
  from Cons.prems(3) have ab: "alpha < b" and b: "b = min beta V" and Vb: "alpha < V"
    using Cons.prems(2) by auto
  from Cons.prems(1) ab have "agree alpha b (rm m) (ra m alpha b)" by simp
  with rm ra have ag:
    "tv \<le> alpha \<longrightarrow> rv \<le> alpha" "b \<le> tv \<longrightarrow> b \<le> rv"
    "alpha < tv \<and> tv < b \<longrightarrow> rv = tv \<and> rp = tp"
    "alpha = MInf \<and> tv = MInf \<longrightarrow> rp = tp"
    by (simp_all add: agree_def)
  have kids: "\<forall>m \<in> set ms. \<forall>a b. a < b \<longrightarrow> agree a b (rm m) (ra m a b)"
    using Cons.prems(1) by simp
  define W1 where "W1 = (if tv < W then tv else W)"
  define bm1 where "bm1 = (if tv < W then Some m else bm)"
  define ml1 where "ml1 = (if tv < W then tp else ml)"
  define V1 where "V1 = (if rv < V then rv else V)"
  define ba1 where "ba1 = (if rv < V then Some m else ba)"
  define al1 where "al1 = (if rv < V then rp else al)"
  have mm: "minimax_min rm enc (m # ms) (W, bm, ml, tm) =
      minimax_min rm enc ms (W1, bm1, ml1, AList.update (enc m) tt tm)"
    unfolding W1_def bm1_def ml1_def using rm by (rule minimax_min_Cons)
  have step: "alphabeta_min ra enc (m # ms) (V, ba, al, ta) alpha b =
     (if V1 \<le> alpha then (V1, ba1, al1, AList.update (enc m) rt ta)
      else alphabeta_min ra enc ms (V1, ba1, al1, AList.update (enc m) rt ta)
             alpha (if V1 < b then V1 else b))"
    unfolding V1_def ba1_def al1_def using ra by (rule alphabeta_min_Cons)
  show ?case
  proof (cases "V1 \<le> alpha")
    case True
    have abv: "alphabeta_min ra enc (m # ms) (V, ba, al, ta) alpha b =
        (V1, ba1, al1, AList.update (enc m) rt ta)"
      using True step by simp
    from True Vb have rvb: "rv \<le> alpha" "rv < V" by (auto simp: V1_def split: if_splits)
    have tvb: "tv \<le> alpha"
    proof (rule ccontr)
      assume "\<not> tv \<le> alpha"
      then have lt: "alpha < tv" by simp
      show False
      proof (cases "b \<le> tv")
        case True
        with ag(2) have "b \<le> rv" by simp
        with ab rvb(1) show False by simp
      next
        case False
        with lt ag(3) have "rv = tv" by simp
        with lt rvb(1) show False by simp
      qed
    qed
    obtain W' bm' ml' tm' where fin:
      "minimax_min rm enc ms (W1, bm1, ml1, AList.update (enc m) tt tm) = (W', bm', ml', tm')"
      by (cases "minimax_min rm enc ms (W1, bm1, ml1, AList.update (enc m) tt tm)")
    have "W' \<le> W1" using minimax_min_mono[OF fin] .
    moreover have "W1 \<le> tv" by (auto simp: W1_def)
    ultimately have bW: "W' \<le> alpha" using tvb by simp
    have WltB: "alpha < W" using Cons.prems(2,3) by auto
    have bot: "alpha = MInf \<Longrightarrow> bm' = ba1 \<and> ml' = al1"
    proof -
      assume b: "alpha = MInf"
      with tvb have tv: "tv = MInf" by simp
      with b rvb have rv: "rv = MInf" by simp
      from WltB b tv have "tv < W" by simp
      then have "W1 = MInf" "bm1 = Some m" "ml1 = tp" using tv by (simp_all add: W1_def bm1_def ml1_def)
      with fin minimax_min_bot[of rm enc ms "Some m" tp _ W' bm' ml' tm'] have "bm' = Some m" "ml' = tp"
        by auto
      moreover from ag b tv have "rp = tp" by simp
      ultimately show ?thesis using rvb by (simp add: ba1_def al1_def)
    qed
    have "agree_locals alpha beta (W', bm', ml', tm') (V1, ba1, al1, AList.update (enc m) rt ta)"
      using bW True bot Cons.prems(2) by auto
    then show ?thesis
      unfolding mm abv fin .
  next
    case False
    have abv: "alphabeta_min ra enc (m # ms) (V, ba, al, ta) alpha b =
        alphabeta_min ra enc ms (V1, ba1, al1, AList.update (enc m) rt ta) alpha (if V1 < b then V1 else b)"
      using False step by simp
    from False have V1b: "alpha < V1" by simp
    have VV1: "V1 \<le> V" by (auto simp: V1_def)
    have rV1: "V1 \<le> rv" by (auto simp: V1_def)
    have tvb: "alpha < tv"
    proof (rule ccontr)
      assume "\<not> alpha < tv"
      with ag(1) have "rv \<le> alpha" by simp
      with rV1 V1b show False by simp
    qed
    have b': "(if V1 < b then V1 else b) = min beta V1"
      using b VV1 by (auto simp: min_def)
    have sW: "W1 = PInf \<longrightarrow> bm1 = None \<and> ml1 = []"
      using Cons.prems(3) by (auto simp: W1_def bm1_def ml1_def)
    have sV: "V1 = PInf \<longrightarrow> ba1 = None \<and> al1 = []"
      using Cons.prems(3) by (auto simp: V1_def ba1_def al1_def)
    from Cons.prems(3) have old: "V = W \<and> ba = bm \<and> al = ml \<or> beta \<le> W \<and> beta \<le> V"
      by simp
    have rel: "V1 = W1 \<and> ba1 = bm1 \<and> al1 = ml1 \<or> beta \<le> W1 \<and> beta \<le> V1"
    proof (cases "b \<le> tv")
      case True
      with ag(2) have rva: "b \<le> rv" by simp
      from old show ?thesis
      proof
        assume eq: "V = W \<and> ba = bm \<and> al = ml"
        show ?thesis
        proof (cases "rv < V")
          case True
          with rva b have aa: "b = beta" "beta < V" by (auto simp: min_def split: if_splits)
          with rva \<open>b \<le> tv\<close> eq have "beta \<le> W1" "beta \<le> V1"
            by (auto simp: W1_def V1_def)
          then show ?thesis by simp
        next
          case nV: False
          show ?thesis
          proof (cases "tv < W")
            case True
            with \<open>b \<le> tv\<close> eq b have aa: "b = beta" "beta < V" by (auto simp: min_def split: if_splits)
            with rva \<open>b \<le> tv\<close> eq have "beta \<le> W1" "beta \<le> V1"
              by (auto simp: W1_def V1_def)
            then show ?thesis by simp
          next
            case False
            with nV eq show ?thesis
              by (simp add: W1_def V1_def bm1_def ba1_def ml1_def al1_def)
          qed
        qed
      next
        assume lo: "beta \<le> W \<and> beta \<le> V"
        with b have "b = beta" by (auto simp: min_def)
        with rva \<open>b \<le> tv\<close> lo have "beta \<le> W1" "beta \<le> V1"
          by (auto simp: W1_def V1_def)
        then show ?thesis by simp
      qed
    next
      case False
      then have atv: "tv < b" by simp
      with tvb ag(3) have r: "rv = tv" "rp = tp" by simp_all
      from b have "b \<le> V" "b \<le> beta" by (auto simp: min_def)
      with atv have Vtv: "tv < V" and alt: "tv < beta" by simp_all
      from old alt Vtv have "tv < W" by auto
      with Vtv r show ?thesis
        by (simp add: W1_def V1_def bm1_def ba1_def ml1_def al1_def)
    qed
    have "inv_min alpha beta (if V1 < b then V1 else b) (W1, bm1, ml1, AList.update (enc m) tt tm)
        (V1, ba1, al1, AList.update (enc m) rt ta)"
      using V1b b' sW sV rel by simp
    from Cons.IH[OF kids Cons.prems(2) this] show ?thesis
      unfolding mm abv .
  qed
qed

lemma agree_finish:
  "agree_locals alpha beta st st' \<Longrightarrow> agree alpha beta (finish st) (finish st')"
  by (cases st; cases st') (auto simp: agree_def)

lemma alphabeta_agree:
  "alpha < beta \<Longrightarrow>
   agree alpha beta (minimax g side board flags d) (alphabeta g side board flags d alpha beta)"
proof (induction d arbitrary: side board flags alpha beta)
  case 0
  then show ?case by (simp add: agree_def)
next
  case (Suc d)
  define rm where "rm = (\<lambda>move. case makeMove g side board move flags of
                   (newside, newboard, newflags) \<Rightarrow> minimax g newside newboard newflags d)"
  define ra where "ra = (\<lambda>move a b. case makeMove g side board move flags of
                   (newside, newboard, newflags) \<Rightarrow> alphabeta g newside newboard newflags d a b)"
  have kids: "\<forall>m \<in> set ms. \<forall>a b. a < b \<longrightarrow> agree a b (rm m) (ra m a b)" for ms
    using Suc.IH by (auto simp: rm_def ra_def split: prod.splits)
  show ?case
  proof (cases side)
    case False
    have "inv_max alpha beta alpha (MInf, None, [], []) (MInf, None, [], [])"
      using Suc.prems by (auto simp: max_def)
    from alphabeta_max_agree[OF kids Suc.prems this]
    show ?thesis using False
      by (simp add: Let_def agree_finish rm_def ra_def)
  next
    case True
    have "inv_min alpha beta beta (PInf, None, [], []) (PInf, None, [], [])"
      using Suc.prems by (auto simp: min_def)
    from alphabeta_min_agree[OF kids Suc.prems this]
    show ?thesis using True
      by (simp add: Let_def agree_finish rm_def ra_def)
  qed
qed

text \<open>
  C1. With the default bounds \<^verbatim>\<open>-inf\<close> and \<^verbatim>\<open>inf\<close>, alphabeta returns the value and the
  move path of minimax, for every game (move generator, transition, evaluator, encoder),
  side, board, flags and depth.
\<close>

theorem alphabeta_equals_minimax:
  "fst (alphabeta g side board flags depth MInf PInf) = fst (minimax g side board flags depth) \<and>
   fst (snd (alphabeta g side board flags depth MInf PInf)) =
     fst (snd (minimax g side board flags depth))"
proof -
  have "agree MInf PInf (minimax g side board flags depth)
          (alphabeta g side board flags depth MInf PInf)"
    by (rule alphabeta_agree) simp
  then show ?thesis
    by (cases "fst (minimax g side board flags depth)") (auto simp: agree_def)
qed

section \<open>Alpha-beta records no more leaves than minimax\<close>

lemma leaves_leaf_sum: "leaves (MTree kvs) = leaf_sum kvs"
  by (simp add: leaf_sum_def leafc_def)

lemma leaf_sum_append [simp]: "leaf_sum (xs @ ys) = leaf_sum xs + leaf_sum ys"
  by (simp add: leaf_sum_def)

lemma leaf_sum_single [simp]: "leaf_sum [(k, t)] = leafc t"
  by (simp add: leaf_sum_def)

lemma leaves_pos: "t \<noteq> MTree [] \<Longrightarrow> 0 < leaves t"
proof (induction t rule: leaves.induct)
  case (1 kvs)
  from "1.prems" obtain kv rest where kvs: "kvs = kv # rest" by (cases kvs) auto
  have "0 < (if snd kv = MTree [] then 1 else leaves (snd kv))"
    using "1.IH"[of kv] kvs by auto
  then show ?case using kvs by simp
qed

lemma leafc_mono: "leaves t' \<le> leaves t \<Longrightarrow> leafc t' \<le> leafc t"
  using leaves_pos[of t] leaves_pos[of t'] by (auto simp: leafc_def)

lemma update_fresh: "k \<notin> fst ` set al \<Longrightarrow> AList.update k v al = al @ [(k, v)]"
  by (induction al) auto

lemma minimax_max_leaf_sum:
  "distinct (map fst tm @ map enc ms) \<Longrightarrow>
   leaf_sum tm \<le> leaf_sum (snd (snd (snd (minimax_max rm enc ms (W, bm, ml, tm)))))"
proof (induction ms arbitrary: W bm ml tm)
  case Nil
  then show ?case by simp
next
  case (Cons m ms)
  obtain tv tp tt where r: "rm m = (tv, tp, tt)" by (cases "rm m")
  from Cons.prems have fresh: "enc m \<notin> fst ` set tm" by auto
  have upd: "AList.update (enc m) tt tm = tm @ [(enc m, tt)]"
    using fresh by (rule update_fresh)
  from Cons.prems have d: "distinct (map fst (tm @ [(enc m, tt)]) @ map enc ms)" by auto
  define W1 where "W1 = (if W < tv then tv else W)"
  define bm1 where "bm1 = (if W < tv then Some m else bm)"
  define ml1 where "ml1 = (if W < tv then tp else ml)"
  have mm: "minimax_max rm enc (m # ms) (W, bm, ml, tm) =
      minimax_max rm enc ms (W1, bm1, ml1, tm @ [(enc m, tt)])"
    unfolding W1_def bm1_def ml1_def upd[symmetric] using r by (rule minimax_max_Cons)
  have "leaf_sum tm \<le> leaf_sum (tm @ [(enc m, tt)])" by simp
  also have "\<dots> \<le> leaf_sum (snd (snd (snd (minimax_max rm enc ms
        (W1, bm1, ml1, tm @ [(enc m, tt)])))))"
    using Cons.IH[OF d] .
  finally show ?case
    unfolding mm .
qed

lemma alphabeta_max_leaf_sum:
  assumes "distinct (map fst tm @ map enc ms)"
    and "map fst ta = map fst tm"
    and "leaf_sum ta \<le> leaf_sum tm"
    and "\<forall>m \<in> set ms. \<forall>a b. leaves (snd (snd (ra m a b))) \<le> leaves (snd (snd (rm m)))"
  shows "leaf_sum (snd (snd (snd (alphabeta_max ra enc ms (V, ba, al, ta) a beta)))) \<le>
         leaf_sum (snd (snd (snd (minimax_max rm enc ms (W, bm, ml, tm)))))"
  using assms
proof (induction ms arbitrary: W bm ml tm V ba al ta a)
  case Nil
  then show ?case by simp
next
  case (Cons m ms)
  obtain tv tp tt where rm: "rm m = (tv, tp, tt)" by (cases "rm m")
  obtain rv rp rt where ra: "ra m a beta = (rv, rp, rt)" by (cases "ra m a beta")
  from Cons.prems(1) have fresh: "enc m \<notin> fst ` set tm" by auto
  with Cons.prems(2) have fresh': "enc m \<notin> fst ` set ta"
    by (metis set_map)
  have upd: "AList.update (enc m) tt tm = tm @ [(enc m, tt)]"
    using fresh by (rule update_fresh)
  have upd': "AList.update (enc m) rt ta = ta @ [(enc m, rt)]"
    using fresh' by (rule update_fresh)
  from Cons.prems(1) have d: "distinct (map fst (tm @ [(enc m, tt)]) @ map enc ms)" by auto
  from Cons.prems(2) have k: "map fst (ta @ [(enc m, rt)]) = map fst (tm @ [(enc m, tt)])" by simp
  from Cons.prems(4) rm ra have "leaves rt \<le> leaves tt" by (metis list.set_intros(1) snd_conv)
  then have "leafc rt \<le> leafc tt" by (rule leafc_mono)
  with Cons.prems(3) have s: "leaf_sum (ta @ [(enc m, rt)]) \<le> leaf_sum (tm @ [(enc m, tt)])"
    by simp
  from Cons.prems(4) have kids:
    "\<forall>m \<in> set ms. \<forall>a b. leaves (snd (snd (ra m a b))) \<le> leaves (snd (snd (rm m)))" by simp
  define W1 where "W1 = (if W < tv then tv else W)"
  define bm1 where "bm1 = (if W < tv then Some m else bm)"
  define ml1 where "ml1 = (if W < tv then tp else ml)"
  define V1 where "V1 = (if V < rv then rv else V)"
  define ba1 where "ba1 = (if V < rv then Some m else ba)"
  define al1 where "al1 = (if V < rv then rp else al)"
  have mm: "minimax_max rm enc (m # ms) (W, bm, ml, tm) =
      minimax_max rm enc ms (W1, bm1, ml1, tm @ [(enc m, tt)])"
    unfolding W1_def bm1_def ml1_def upd[symmetric] using rm by (rule minimax_max_Cons)
  have step: "alphabeta_max ra enc (m # ms) (V, ba, al, ta) a beta =
     (if beta \<le> V1 then (V1, ba1, al1, ta @ [(enc m, rt)])
      else alphabeta_max ra enc ms (V1, ba1, al1, ta @ [(enc m, rt)])
             (if a < V1 then V1 else a) beta)"
    unfolding V1_def ba1_def al1_def upd'[symmetric] using ra by (rule alphabeta_max_Cons)
  show ?case
  proof (cases "beta \<le> V1")
    case True
    have "leaf_sum (ta @ [(enc m, rt)]) \<le> leaf_sum (tm @ [(enc m, tt)])" by (rule s)
    also have "\<dots> \<le> leaf_sum (snd (snd (snd (minimax_max rm enc ms (W1, bm1, ml1, tm @ [(enc m, tt)])))))"
      using d by (rule minimax_max_leaf_sum)
    finally show ?thesis using True unfolding mm step by simp
  next
    case False
    from Cons.IH[OF d k s kids] show ?thesis using False unfolding mm step by simp
  qed
qed

lemma minimax_min_leaf_sum:
  "distinct (map fst tm @ map enc ms) \<Longrightarrow>
   leaf_sum tm \<le> leaf_sum (snd (snd (snd (minimax_min rm enc ms (W, bm, ml, tm)))))"
proof (induction ms arbitrary: W bm ml tm)
  case Nil
  then show ?case by simp
next
  case (Cons m ms)
  obtain tv tp tt where r: "rm m = (tv, tp, tt)" by (cases "rm m")
  from Cons.prems have fresh: "enc m \<notin> fst ` set tm" by auto
  have upd: "AList.update (enc m) tt tm = tm @ [(enc m, tt)]"
    using fresh by (rule update_fresh)
  from Cons.prems have d: "distinct (map fst (tm @ [(enc m, tt)]) @ map enc ms)" by auto
  define W1 where "W1 = (if tv < W then tv else W)"
  define bm1 where "bm1 = (if tv < W then Some m else bm)"
  define ml1 where "ml1 = (if tv < W then tp else ml)"
  have mm: "minimax_min rm enc (m # ms) (W, bm, ml, tm) =
      minimax_min rm enc ms (W1, bm1, ml1, tm @ [(enc m, tt)])"
    unfolding W1_def bm1_def ml1_def upd[symmetric] using r by (rule minimax_min_Cons)
  have "leaf_sum tm \<le> leaf_sum (tm @ [(enc m, tt)])" by simp
  also have "\<dots> \<le> leaf_sum (snd (snd (snd (minimax_min rm enc ms
        (W1, bm1, ml1, tm @ [(enc m, tt)])))))"
    using Cons.IH[OF d] .
  finally show ?case
    unfolding mm .
qed

lemma alphabeta_min_leaf_sum:
  assumes "distinct (map fst tm @ map enc ms)"
    and "map fst ta = map fst tm"
    and "leaf_sum ta \<le> leaf_sum tm"
    and "\<forall>m \<in> set ms. \<forall>a b. leaves (snd (snd (ra m a b))) \<le> leaves (snd (snd (rm m)))"
  shows "leaf_sum (snd (snd (snd (alphabeta_min ra enc ms (V, ba, al, ta) alpha b)))) \<le>
         leaf_sum (snd (snd (snd (minimax_min rm enc ms (W, bm, ml, tm)))))"
  using assms
proof (induction ms arbitrary: W bm ml tm V ba al ta b)
  case Nil
  then show ?case by simp
next
  case (Cons m ms)
  obtain tv tp tt where rm: "rm m = (tv, tp, tt)" by (cases "rm m")
  obtain rv rp rt where ra: "ra m alpha b = (rv, rp, rt)" by (cases "ra m alpha b")
  from Cons.prems(1) have fresh: "enc m \<notin> fst ` set tm" by auto
  with Cons.prems(2) have fresh': "enc m \<notin> fst ` set ta"
    by (metis set_map)
  have upd: "AList.update (enc m) tt tm = tm @ [(enc m, tt)]"
    using fresh by (rule update_fresh)
  have upd': "AList.update (enc m) rt ta = ta @ [(enc m, rt)]"
    using fresh' by (rule update_fresh)
  from Cons.prems(1) have d: "distinct (map fst (tm @ [(enc m, tt)]) @ map enc ms)" by auto
  from Cons.prems(2) have k: "map fst (ta @ [(enc m, rt)]) = map fst (tm @ [(enc m, tt)])" by simp
  from Cons.prems(4) rm ra have "leaves rt \<le> leaves tt" by (metis list.set_intros(1) snd_conv)
  then have "leafc rt \<le> leafc tt" by (rule leafc_mono)
  with Cons.prems(3) have s: "leaf_sum (ta @ [(enc m, rt)]) \<le> leaf_sum (tm @ [(enc m, tt)])"
    by simp
  from Cons.prems(4) have kids:
    "\<forall>m \<in> set ms. \<forall>a b. leaves (snd (snd (ra m a b))) \<le> leaves (snd (snd (rm m)))" by simp
  define W1 where "W1 = (if tv < W then tv else W)"
  define bm1 where "bm1 = (if tv < W then Some m else bm)"
  define ml1 where "ml1 = (if tv < W then tp else ml)"
  define V1 where "V1 = (if rv < V then rv else V)"
  define ba1 where "ba1 = (if rv < V then Some m else ba)"
  define al1 where "al1 = (if rv < V then rp else al)"
  have mm: "minimax_min rm enc (m # ms) (W, bm, ml, tm) =
      minimax_min rm enc ms (W1, bm1, ml1, tm @ [(enc m, tt)])"
    unfolding W1_def bm1_def ml1_def upd[symmetric] using rm by (rule minimax_min_Cons)
  have step: "alphabeta_min ra enc (m # ms) (V, ba, al, ta) alpha b =
     (if V1 \<le> alpha then (V1, ba1, al1, ta @ [(enc m, rt)])
      else alphabeta_min ra enc ms (V1, ba1, al1, ta @ [(enc m, rt)])
             alpha (if V1 < b then V1 else b))"
    unfolding V1_def ba1_def al1_def upd'[symmetric] using ra by (rule alphabeta_min_Cons)
  show ?case
  proof (cases "V1 \<le> alpha")
    case True
    have "leaf_sum (ta @ [(enc m, rt)]) \<le> leaf_sum (tm @ [(enc m, tt)])" by (rule s)
    also have "\<dots> \<le> leaf_sum (snd (snd (snd (minimax_min rm enc ms (W1, bm1, ml1, tm @ [(enc m, tt)])))))"
      using d by (rule minimax_min_leaf_sum)
    finally show ?thesis using True unfolding mm step by simp
  next
    case False
    from Cons.IH[OF d k s kids] show ?thesis using False unfolding mm step by simp
  qed
qed


lemma alphabeta_leaves_le:
  fixes g :: "('b, 'f, 'm, 'k) game"
  assumes "\<forall>side board flags. distinct (map (encode g) (generateMoves g side board flags))"
  shows "leaves (snd (snd (alphabeta g side board flags d alpha beta))) \<le>
         leaves (snd (snd (minimax g side board flags d)))"
proof (induction d arbitrary: side board flags alpha beta)
  case 0
  show ?case by simp
next
  case (Suc d)
  define rm where "rm = (\<lambda>move. case makeMove g side board move flags of
                   (newside, newboard, newflags) \<Rightarrow> minimax g newside newboard newflags d)"
  define ra where "ra = (\<lambda>move a b. case makeMove g side board move flags of
                   (newside, newboard, newflags) \<Rightarrow> alphabeta g newside newboard newflags d a b)"
  define ms where "ms = generateMoves g side board flags"
  have kids: "\<forall>m \<in> set ms. \<forall>a b. leaves (snd (snd (ra m a b))) \<le> leaves (snd (snd (rm m)))"
    using Suc.IH by (auto simp: rm_def ra_def split: prod.splits)
  have d: "distinct (map fst ([] :: ('k \<times> 'k mtree) list) @ map (encode g) ms)"
    using assms by (simp add: ms_def)
  have mm_eq: "minimax g side board flags (Suc d) =
      (if \<not> side then finish (minimax_max rm (encode g) ms (MInf, None, [], []))
       else finish (minimax_min rm (encode g) ms (PInf, None, [], [])))"
    by (simp add: rm_def ms_def Let_def)
  have ab_eq: "alphabeta g side board flags (Suc d) alpha beta =
      (if \<not> side then finish (alphabeta_max ra (encode g) ms (MInf, None, [], []) alpha beta)
       else finish (alphabeta_min ra (encode g) ms (PInf, None, [], []) alpha beta))"
    by (simp add: ra_def ms_def Let_def)
  show ?case
  proof (cases side)
    case False
    obtain V ba al ta where A: "alphabeta_max ra (encode g) ms (MInf, None, [], []) alpha beta = (V, ba, al, ta)"
      by (cases "alphabeta_max ra (encode g) ms (MInf, None, [], []) alpha beta")
    obtain W bm ml tm where M: "minimax_max rm (encode g) ms (MInf, None, [], []) = (W, bm, ml, tm)"
      by (cases "minimax_max rm (encode g) ms (MInf, None, [], [])")
    from alphabeta_max_leaf_sum[OF d _ _ kids, of "[]" MInf None "[]" alpha beta MInf None "[]"]
    have "leaf_sum ta \<le> leaf_sum tm" unfolding A M by simp
    then show ?thesis using False unfolding mm_eq ab_eq A M
      by (simp add: leaves_leaf_sum del: leaves.simps)
  next
    case True
    obtain V ba al ta where A: "alphabeta_min ra (encode g) ms (PInf, None, [], []) alpha beta = (V, ba, al, ta)"
      by (cases "alphabeta_min ra (encode g) ms (PInf, None, [], []) alpha beta")
    obtain W bm ml tm where M: "minimax_min rm (encode g) ms (PInf, None, [], []) = (W, bm, ml, tm)"
      by (cases "minimax_min rm (encode g) ms (PInf, None, [], [])")
    from alphabeta_min_leaf_sum[OF d _ _ kids, of "[]" PInf None "[]" alpha beta PInf None "[]"]
    have "leaf_sum ta \<le> leaf_sum tm" unfolding A M by simp
    then show ?thesis using True unfolding mm_eq ab_eq A M
      by (simp add: leaves_leaf_sum del: leaves.simps)
  qed
qed

text \<open>
  C6. When the keys of the moves generated at any one position are distinct (the encoder
  is injective on them and the generator yields no move twice), the move tree of alphabeta
  with the default bounds has at most as many leaf entries as the move tree of minimax on
  the same input. In \<open>pruning_game\<close> it has fewer: after the first move is worth 5, the
  second move's first reply is worth 4, the loop of the minimizing side cuts off, and the
  leaf under its second reply is never recorded (3 leaf entries against 4).
\<close>

theorem alphabeta_explores_no_more_leaves:
  assumes "\<forall>side board flags. distinct (map (encode g) (generateMoves g side board flags))"
  shows "leaves (snd (snd (alphabeta g side board flags depth MInf PInf))) \<le>
           leaves (snd (snd (minimax g side board flags depth))) \<and>
         (\<forall>side board flags.
            distinct (map (encode pruning_game) (generateMoves pruning_game side board flags))) \<and>
         snd (snd (minimax pruning_game False 0 () 2)) =
           MTree [(1, MTree [(3, MTree []), (4, MTree [])]),
                  (2, MTree [(5, MTree []), (6, MTree [])])] \<and>
         snd (snd (alphabeta pruning_game False 0 () 2 MInf PInf)) =
           MTree [(1, MTree [(3, MTree []), (4, MTree [])]), (2, MTree [(5, MTree [])])] \<and>
         leaves (snd (snd (alphabeta pruning_game False 0 () 2 MInf PInf))) <
           leaves (snd (snd (minimax pruning_game False 0 () 2)))"
proof -
  have 1: "leaves (snd (snd (alphabeta g side board flags depth MInf PInf))) \<le>
           leaves (snd (snd (minimax g side board flags depth)))"
    using assms by (rule alphabeta_leaves_le)
  have 2: "\<forall>side board flags.
            distinct (map (encode pruning_game) (generateMoves pruning_game side board flags))"
    by (simp add: pruning_game_def)
  have 3: "snd (snd (minimax pruning_game False 0 () 2)) =
           MTree [(1, MTree [(3, MTree []), (4, MTree [])]),
                  (2, MTree [(5, MTree []), (6, MTree [])])]"
    by (simp add: pruning_game_def eval_nat_numeral)
  have 4: "snd (snd (alphabeta pruning_game False 0 () 2 MInf PInf)) =
           MTree [(1, MTree [(3, MTree []), (4, MTree [])]), (2, MTree [(5, MTree [])])]"
    by (simp add: pruning_game_def eval_nat_numeral)
  have 5: "leaves (snd (snd (alphabeta pruning_game False 0 () 2 MInf PInf))) <
           leaves (snd (snd (minimax pruning_game False 0 () 2)))"
    unfolding 3 4 by simp
  from 1 2 3 4 5 show ?thesis by blast
qed

theorem alphabeta_explores_no_more_leaves_witness:
  "(\<forall>side board flags.
      distinct (map (encode pruning_game) (generateMoves pruning_game side board flags))) \<and>
   leaves (snd (snd (alphabeta pruning_game False 0 () 2 MInf PInf))) \<le>
     leaves (snd (snd (minimax pruning_game False 0 () 2)))"
proof -
  have h: "\<forall>side board flags.
      distinct (map (encode pruning_game) (generateMoves pruning_game side board flags))"
    by (simp add: pruning_game_def)
  from alphabeta_explores_no_more_leaves[OF h, of False 0 "()" 2] h show ?thesis by blast
qed

section \<open>What the move tree records\<close>

lemma assign_all_Nil [simp]: "assign_all enc [] t = t"
  by (simp add: assign_all_def)

lemma assign_all_Cons [simp]:
  "assign_all enc ((m, sub) # ps) t = assign_all enc ps (AList.update (enc m) sub t)"
  by (simp add: assign_all_def)

lemma minimax_max_tree:
  "snd (snd (snd (minimax_max rm enc ms (W, bm, ml, tm)))) =
   assign_all enc (map (\<lambda>m. (m, snd (snd (rm m)))) ms) tm"
proof (induction ms arbitrary: W bm ml tm)
  case Nil
  show ?case by simp
next
  case (Cons m ms)
  obtain tv tp tt where r: "rm m = (tv, tp, tt)" by (cases "rm m")
  show ?case
    using r Cons.IH by (cases "W < tv") simp_all
qed

lemma minimax_min_tree:
  "snd (snd (snd (minimax_min rm enc ms (W, bm, ml, tm)))) =
   assign_all enc (map (\<lambda>m. (m, snd (snd (rm m)))) ms) tm"
proof (induction ms arbitrary: W bm ml tm)
  case Nil
  show ?case by simp
next
  case (Cons m ms)
  obtain tv tp tt where r: "rm m = (tv, tp, tt)" by (cases "rm m")
  show ?case
    using r Cons.IH by (cases "tv < W") simp_all
qed

lemma explored_Nil: "explored ra enc [] ta ta 0 []"
  by (simp add: explored_def)

lemma explored_one:
  "ra m a b = (rv, rp, rt) \<Longrightarrow> explored ra enc (m # ms) ta (AList.update (enc m) rt ta) 1 [rt]"
  by (simp add: explored_def) (metis snd_conv)

lemma explored_Cons:
  assumes "ra m a b = (rv, rp, rt)"
    and "explored ra enc ms (AList.update (enc m) rt ta) t n subs"
    and "ms = [] \<or> 0 < n"
  shows "explored ra enc (m # ms) ta t (Suc n) (rt # subs)"
proof -
  have "\<exists>a b. (rt # subs) ! i = snd (snd (ra ((m # ms) ! i) a b))" if "i < Suc n" for i
  proof (cases i)
    case 0
    with assms(1) show ?thesis by (metis nth_Cons_0 snd_conv)
  next
    case (Suc j)
    with that assms(2) show ?thesis by (simp add: explored_def)
  qed
  with assms(2) show ?thesis by (simp add: explored_def)
qed

lemma alphabeta_max_explored:
  "\<exists>n subs. explored ra enc ms ta
       (snd (snd (snd (alphabeta_max ra enc ms (V, ba, al, ta) a beta)))) n subs \<and>
     (n < length ms \<longrightarrow> beta \<le> fst (alphabeta_max ra enc ms (V, ba, al, ta) a beta)) \<and>
     (\<forall>k. 0 < k \<and> k < n \<longrightarrow> \<not> beta \<le> fst (alphabeta_max ra enc (take k ms) (V, ba, al, ta) a beta))"
proof (induction ms arbitrary: V ba al ta a)
  case Nil
  show ?case using explored_Nil[of ra enc ta] by auto
next
  case (Cons m ms)
  obtain rv rp rt where ra: "ra m a beta = (rv, rp, rt)" by (cases "ra m a beta")
  define V1 where "V1 = (if V < rv then rv else V)"
  define ba1 where "ba1 = (if V < rv then Some m else ba)"
  define al1 where "al1 = (if V < rv then rp else al)"
  define a1 where "a1 = (if a < V1 then V1 else a)"
  have step: "alphabeta_max ra enc (m # xs) (V, ba, al, ta) a beta =
     (if beta \<le> V1 then (V1, ba1, al1, AList.update (enc m) rt ta)
      else alphabeta_max ra enc xs (V1, ba1, al1, AList.update (enc m) rt ta) a1 beta)" for xs
    unfolding V1_def ba1_def al1_def a1_def using ra by (rule alphabeta_max_Cons)
  show ?case
  proof (cases "beta \<le> V1")
    case True
    have "explored ra enc (m # ms) ta (AList.update (enc m) rt ta) 1 [rt]"
      using ra by (rule explored_one)
    with True show ?thesis unfolding step by (intro exI[of _ 1] exI[of _ "[rt]"]) simp
  next
    case False
    from Cons.IH[where V=V1 and ba=ba1 and al=al1 and ta="AList.update (enc m) rt ta" and a=a1]
    obtain n subs where ex: "explored ra enc ms (AList.update (enc m) rt ta)
         (snd (snd (snd (alphabeta_max ra enc ms (V1, ba1, al1, AList.update (enc m) rt ta) a1 beta)))) n subs"
      and cut: "n < length ms \<longrightarrow> beta \<le> fst (alphabeta_max ra enc ms (V1, ba1, al1, AList.update (enc m) rt ta) a1 beta)"
      and before: "\<forall>k. 0 < k \<and> k < n \<longrightarrow> \<not> beta \<le> fst (alphabeta_max ra enc (take k ms) (V1, ba1, al1, AList.update (enc m) rt ta) a1 beta)"
      by blast
    from ex have n0: "ms = [] \<or> 0 < n" by (auto simp: explored_def)
    have ex': "explored ra enc (m # ms) ta
         (snd (snd (snd (alphabeta_max ra enc ms (V1, ba1, al1, AList.update (enc m) rt ta) a1 beta)))) (Suc n) (rt # subs)"
      using ra ex n0 by (rule explored_Cons)
    have before': "\<not> beta \<le> fst (alphabeta_max ra enc (take k (m # ms)) (V, ba, al, ta) a beta)"
      if "0 < k" "k < Suc n" for k
    proof -
      from that obtain j where k: "k = Suc j" by (cases k) auto
      have tk: "take k (m # ms) = m # take j ms" using k by simp
      have run: "alphabeta_max ra enc (take k (m # ms)) (V, ba, al, ta) a beta =
          alphabeta_max ra enc (take j ms) (V1, ba1, al1, AList.update (enc m) rt ta) a1 beta"
        unfolding tk step using False by simp
      show ?thesis
      proof (cases j)
        case 0
        with False show ?thesis unfolding run by simp
      next
        case (Suc i)
        with k that before show ?thesis unfolding run by simp
      qed
    qed
    from ex' cut before' False show ?thesis
      unfolding step[of ms] by (intro exI[of _ "Suc n"] exI[of _ "rt # subs"]) simp
  qed
qed


lemma alphabeta_min_explored:
  "\<exists>n subs. explored ra enc ms ta
       (snd (snd (snd (alphabeta_min ra enc ms (V, ba, al, ta) alpha b)))) n subs \<and>
     (n < length ms \<longrightarrow> fst (alphabeta_min ra enc ms (V, ba, al, ta) alpha b) \<le> alpha) \<and>
     (\<forall>k. 0 < k \<and> k < n \<longrightarrow> \<not> fst (alphabeta_min ra enc (take k ms) (V, ba, al, ta) alpha b) \<le> alpha)"
proof (induction ms arbitrary: V ba al ta b)
  case Nil
  show ?case using explored_Nil[of ra enc ta] by auto
next
  case (Cons m ms)
  obtain rv rp rt where ra: "ra m alpha b = (rv, rp, rt)" by (cases "ra m alpha b")
  define V1 where "V1 = (if rv < V then rv else V)"
  define ba1 where "ba1 = (if rv < V then Some m else ba)"
  define al1 where "al1 = (if rv < V then rp else al)"
  define b1 where "b1 = (if V1 < b then V1 else b)"
  have step: "alphabeta_min ra enc (m # xs) (V, ba, al, ta) alpha b =
     (if V1 \<le> alpha then (V1, ba1, al1, AList.update (enc m) rt ta)
      else alphabeta_min ra enc xs (V1, ba1, al1, AList.update (enc m) rt ta) alpha b1)" for xs
    unfolding V1_def ba1_def al1_def b1_def using ra by (rule alphabeta_min_Cons)
  show ?case
  proof (cases "V1 \<le> alpha")
    case True
    have "explored ra enc (m # ms) ta (AList.update (enc m) rt ta) 1 [rt]"
      using ra by (rule explored_one)
    with True show ?thesis unfolding step by (intro exI[of _ 1] exI[of _ "[rt]"]) simp
  next
    case False
    from Cons.IH[where V=V1 and ba=ba1 and al=al1 and ta="AList.update (enc m) rt ta" and b=b1]
    obtain n subs where ex: "explored ra enc ms (AList.update (enc m) rt ta)
         (snd (snd (snd (alphabeta_min ra enc ms (V1, ba1, al1, AList.update (enc m) rt ta) alpha b1)))) n subs"
      and cut: "n < length ms \<longrightarrow> fst (alphabeta_min ra enc ms (V1, ba1, al1, AList.update (enc m) rt ta) alpha b1) \<le> alpha"
      and before: "\<forall>k. 0 < k \<and> k < n \<longrightarrow> \<not> fst (alphabeta_min ra enc (take k ms) (V1, ba1, al1, AList.update (enc m) rt ta) alpha b1) \<le> alpha"
      by blast
    from ex have n0: "ms = [] \<or> 0 < n" by (auto simp: explored_def)
    have ex': "explored ra enc (m # ms) ta
         (snd (snd (snd (alphabeta_min ra enc ms (V1, ba1, al1, AList.update (enc m) rt ta) alpha b1)))) (Suc n) (rt # subs)"
      using ra ex n0 by (rule explored_Cons)
    have before': "\<not> fst (alphabeta_min ra enc (take k (m # ms)) (V, ba, al, ta) alpha b) \<le> alpha"
      if "0 < k" "k < Suc n" for k
    proof -
      from that obtain j where k: "k = Suc j" by (cases k) auto
      have tk: "take k (m # ms) = m # take j ms" using k by simp
      have run: "alphabeta_min ra enc (take k (m # ms)) (V, ba, al, ta) alpha b =
          alphabeta_min ra enc (take j ms) (V1, ba1, al1, AList.update (enc m) rt ta) alpha b1"
        unfolding tk step using False by simp
      show ?thesis
      proof (cases j)
        case 0
        with False show ?thesis unfolding run by simp
      next
        case (Suc i)
        with k that before show ?thesis unfolding run by simp
      qed
    qed
    from ex' cut before' False show ?thesis
      unfolding step[of ms] by (intro exI[of _ "Suc n"] exI[of _ "rt # subs"]) simp
  qed
qed

lemma minimax_Suc:
  "minimax g side board flags (Suc d) =
     (if \<not> side
      then finish (minimax_max (child_minimax g side board flags d) (encode g)
             (generateMoves g side board flags) (MInf, None, [], []))
      else finish (minimax_min (child_minimax g side board flags d) (encode g)
             (generateMoves g side board flags) (PInf, None, [], [])))"
  by (simp add: child_minimax_def[abs_def] Let_def)

lemma alphabeta_Suc:
  "alphabeta g side board flags (Suc d) alpha beta =
     finish (alphabeta_loop g side board flags d (generateMoves g side board flags) alpha beta)"
  by (simp add: alphabeta_loop_def child_alphabeta_def[abs_def] Let_def)

lemma snd_snd_finish: "snd (snd (finish st)) = MTree (snd (snd (snd st)))"
  by (cases st) simp

lemma fst_finish: "fst (finish st) = fst st"
  by (cases st) simp

text \<open>
  C5. The move tree of minimax is the result of assigning, for every generated move in
  order, the sub-tree returned by the recursive call on that move under the move's key,
  whatever the values are. The move tree of alphabeta is the result of the same assignments
  for the first \<open>n\<close> generated moves only (at least one when there is a move): if moves
  are left over, the value returned passes the cutoff test, so the last recorded move is
  the one that triggered the cutoff, and after none of the recorded moves before it did the
  value pass the test.
\<close>

theorem move_tree_records_explored_moves:
  "entries (snd (snd (minimax g side board flags (Suc d)))) =
     assign_all (encode g)
       (map (\<lambda>move. (move, snd (snd (child_minimax g side board flags d move))))
          (generateMoves g side board flags)) [] \<and>
   (\<exists>n subs.
      explored (child_alphabeta g side board flags d) (encode g) (generateMoves g side board flags) []
        (entries (snd (snd (alphabeta g side board flags (Suc d) alpha beta)))) n subs \<and>
      (n < length (generateMoves g side board flags) \<longrightarrow>
         cutoff side (fst (alphabeta g side board flags (Suc d) alpha beta)) alpha beta) \<and>
      (\<forall>k. 0 < k \<and> k < n \<longrightarrow>
         \<not> cutoff side
             (fst (alphabeta_loop g side board flags d (take k (generateMoves g side board flags))
                alpha beta)) alpha beta))"
proof
  show "entries (snd (snd (minimax g side board flags (Suc d)))) =
     assign_all (encode g)
       (map (\<lambda>move. (move, snd (snd (child_minimax g side board flags d move))))
          (generateMoves g side board flags)) []"
    unfolding minimax_Suc by (simp add: snd_snd_finish minimax_max_tree minimax_min_tree)
next
  define ms where "ms = generateMoves g side board flags"
  define ra where "ra = child_alphabeta g side board flags d"
  show "\<exists>n subs.
      explored (child_alphabeta g side board flags d) (encode g) (generateMoves g side board flags) []
        (entries (snd (snd (alphabeta g side board flags (Suc d) alpha beta)))) n subs \<and>
      (n < length (generateMoves g side board flags) \<longrightarrow>
         cutoff side (fst (alphabeta g side board flags (Suc d) alpha beta)) alpha beta) \<and>
      (\<forall>k. 0 < k \<and> k < n \<longrightarrow>
         \<not> cutoff side
             (fst (alphabeta_loop g side board flags d (take k (generateMoves g side board flags))
                alpha beta)) alpha beta)"
  proof (cases side)
    case False
    from alphabeta_max_explored[of ra "encode g" ms "[]" MInf None "[]" alpha beta]
    show ?thesis using False
      unfolding alphabeta_Suc snd_snd_finish fst_finish
      by (simp add: alphabeta_loop_def cutoff_def ms_def ra_def)
  next
    case True
    from alphabeta_min_explored[of ra "encode g" ms "[]" PInf None "[]" alpha beta]
    show ?thesis using True
      unfolding alphabeta_Suc snd_snd_finish fst_finish
      by (simp add: alphabeta_loop_def cutoff_def ms_def ra_def)
  qed
qed

theorem move_tree_records_explored_moves_witness:
  "entries (snd (snd (minimax pruning_game True 2 () (Suc 0)))) =
     assign_all (encode pruning_game)
       (map (\<lambda>move. (move, snd (snd (child_minimax pruning_game True 2 () 0 move))))
          (generateMoves pruning_game True 2 ())) [] \<and>
   (\<exists>n subs.
      explored (child_alphabeta pruning_game True 2 () 0) (encode pruning_game)
        (generateMoves pruning_game True 2 ()) []
        (entries (snd (snd (alphabeta pruning_game True 2 () (Suc 0) (Fin 5) PInf)))) n subs \<and>
      (n < length (generateMoves pruning_game True 2 ()) \<longrightarrow>
         cutoff True (fst (alphabeta pruning_game True 2 () (Suc 0) (Fin 5) PInf)) (Fin 5) PInf) \<and>
      (\<forall>k. 0 < k \<and> k < n \<longrightarrow>
         \<not> cutoff True
             (fst (alphabeta_loop pruning_game True 2 () 0
                (take k (generateMoves pruning_game True 2 ())) (Fin 5) PInf)) (Fin 5) PInf)) \<and>
   generateMoves pruning_game True 2 () = [5, 6] \<and>
   entries (snd (snd (minimax pruning_game True 2 () (Suc 0)))) = [(5, MTree []), (6, MTree [])] \<and>
   entries (snd (snd (alphabeta pruning_game True 2 () (Suc 0) (Fin 5) PInf))) = [(5, MTree [])] \<and>
   cutoff True (fst (alphabeta pruning_game True 2 () (Suc 0) (Fin 5) PInf)) (Fin 5) PInf"
proof -
  have "generateMoves pruning_game True 2 () = [5, 6] \<and>
   entries (snd (snd (minimax pruning_game True 2 () (Suc 0)))) = [(5, MTree []), (6, MTree [])] \<and>
   entries (snd (snd (alphabeta pruning_game True 2 () (Suc 0) (Fin 5) PInf))) = [(5, MTree [])] \<and>
   cutoff True (fst (alphabeta pruning_game True 2 () (Suc 0) (Fin 5) PInf)) (Fin 5) PInf"
    by (simp add: pruning_game_def cutoff_def)
  with move_tree_records_explored_moves[of pruning_game True 2 "()" 0 "Fin 5" PInf]
  show ?thesis by blast
qed

section \<open>The two models of minimax and alphabeta agree\<close>

text \<open>
  For a depth that is not negative and a stack deeper than the depth, the searches as
  Python runs them return what the searches over natural depths return.
\<close>

lemma minimax_max_py_pure:
  "\<forall>m \<in> set ms. recpy m = Inr (rec m) \<Longrightarrow>
   minimax_max_py recpy enc ms st = Inr (minimax_max rec enc ms st)"
  by (induction ms arbitrary: st) (auto split: prod.splits)

lemma minimax_min_py_pure:
  "\<forall>m \<in> set ms. recpy m = Inr (rec m) \<Longrightarrow>
   minimax_min_py recpy enc ms st = Inr (minimax_min rec enc ms st)"
  by (induction ms arbitrary: st) (auto split: prod.splits)

lemma alphabeta_max_py_pure:
  "\<forall>m \<in> set ms. \<forall>a b. recpy m a b = Inr (rec m a b) \<Longrightarrow>
   alphabeta_max_py recpy enc ms st alpha beta = Inr (alphabeta_max rec enc ms st alpha beta)"
  by (induction ms arbitrary: st alpha) (auto simp: Let_def split: prod.splits)

lemma alphabeta_min_py_pure:
  "\<forall>m \<in> set ms. \<forall>a b. recpy m a b = Inr (rec m a b) \<Longrightarrow>
   alphabeta_min_py recpy enc ms st alpha beta = Inr (alphabeta_min rec enc ms st alpha beta)"
  by (induction ms arbitrary: st beta) (auto simp: Let_def split: prod.splits)

lemma minimax_py_pure:
  "0 \<le> depth \<Longrightarrow> nat depth < stack \<Longrightarrow>
   minimax_py stack g side board flags depth = Inr (minimax g side board flags (nat depth))"
proof (induction stack arbitrary: depth side board flags)
  case 0
  then show ?case by simp
next
  case (Suc stack)
  show ?case
  proof (cases "depth = 0")
    case True
    then show ?thesis by simp
  next
    case False
    with Suc.prems obtain d where d: "nat depth = Suc d" "nat (depth - 1) = d" "0 \<le> depth - 1" "d < stack"
      by (cases "nat depth") auto
    define recpy where "recpy = (\<lambda>move. case makeMove g side board move flags of
                     (newside, newboard, newflags) \<Rightarrow>
                       minimax_py stack g newside newboard newflags (depth - 1))"
    define rec where "rec = (\<lambda>move. case makeMove g side board move flags of
                   (newside, newboard, newflags) \<Rightarrow> minimax g newside newboard newflags d)"
    have kids: "\<forall>m \<in> set ms. recpy m = Inr (rec m)" for ms
      using Suc.IH[OF d(3)] d by (auto simp: recpy_def rec_def split: prod.splits)
    have py: "minimax_py (Suc stack) g side board flags depth =
        (if \<not> side
         then map_sum id finish (minimax_max_py recpy (encode g) (generateMoves g side board flags) (MInf, None, [], []))
         else map_sum id finish (minimax_min_py recpy (encode g) (generateMoves g side board flags) (PInf, None, [], [])))"
      using False by (simp add: recpy_def Let_def)
    have pure: "minimax g side board flags (Suc d) =
        (if \<not> side
         then finish (minimax_max rec (encode g) (generateMoves g side board flags) (MInf, None, [], []))
         else finish (minimax_min rec (encode g) (generateMoves g side board flags) (PInf, None, [], [])))"
      by (simp add: rec_def Let_def)
    show ?thesis
      unfolding py d(1) pure
      by (simp add: minimax_max_py_pure[OF kids] minimax_min_py_pure[OF kids])
  qed
qed

lemma alphabeta_py_pure:
  "0 \<le> depth \<Longrightarrow> nat depth < stack \<Longrightarrow>
   alphabeta_py stack g side board flags depth alpha beta =
     Inr (alphabeta g side board flags (nat depth) alpha beta)"
proof (induction stack arbitrary: depth side board flags alpha beta)
  case 0
  then show ?case by simp
next
  case (Suc stack)
  show ?case
  proof (cases "depth = 0")
    case True
    then show ?thesis by simp
  next
    case False
    with Suc.prems obtain d where d: "nat depth = Suc d" "nat (depth - 1) = d" "0 \<le> depth - 1" "d < stack"
      by (cases "nat depth") auto
    define recpy where "recpy = (\<lambda>move a b. case makeMove g side board move flags of
                     (newside, newboard, newflags) \<Rightarrow>
                       alphabeta_py stack g newside newboard newflags (depth - 1) a b)"
    define rec where "rec = (\<lambda>move a b. case makeMove g side board move flags of
                   (newside, newboard, newflags) \<Rightarrow> alphabeta g newside newboard newflags d a b)"
    have kids: "\<forall>m \<in> set ms. \<forall>a b. recpy m a b = Inr (rec m a b)" for ms
      using Suc.IH[OF d(3)] d by (auto simp: recpy_def rec_def split: prod.splits)
    have py: "alphabeta_py (Suc stack) g side board flags depth alpha beta =
        (if \<not> side
         then map_sum id finish (alphabeta_max_py recpy (encode g) (generateMoves g side board flags) (MInf, None, [], []) alpha beta)
         else map_sum id finish (alphabeta_min_py recpy (encode g) (generateMoves g side board flags) (PInf, None, [], []) alpha beta))"
      using False by (simp add: recpy_def Let_def)
    have pure: "alphabeta g side board flags (Suc d) alpha beta =
        (if \<not> side
         then finish (alphabeta_max rec (encode g) (generateMoves g side board flags) (MInf, None, [], []) alpha beta)
         else finish (alphabeta_min rec (encode g) (generateMoves g side board flags) (PInf, None, [], []) alpha beta))"
      by (simp add: rec_def Let_def)
    show ?thesis
      unfolding py d(1) pure
      by (simp add: alphabeta_max_py_pure[OF kids] alphabeta_min_py_pure[OF kids])
  qed
qed

section \<open>When the stochastic search fails\<close>

declare rollout.simps [simp del]

lemma rollout_past_depth:
  "depth < curr_depth \<Longrightarrow>
   rollout g chooser i_move depth curr_depth pos path vals moveTree r = Inr (path, vals, moveTree, r)"
  by (cases pos) (simp add: rollout.simps)

lemma rollouts_depth_le_0:
  "depth \<le> 0 \<Longrightarrow>
   rollouts g chooser i_move depth pos n (path, vals, moveTree, r) =
     Inr (if n = 0 then path else Some [], vals, moveTree, r)"
  by (induction n arbitrary: path) (simp_all add: rollout_past_depth)

lemma backtrackPath_empty: "backtrackPath enc [] [] = Inl IndexError"
  by (simp add: backtrackPath_def)

lemma rollout_depth_1:
  "rollout g chooser i_move 1 1 pos [] vals moveTree r = Inl IndexError"
  by (cases pos) (simp add: rollout.simps backtrackPath_empty)

lemma rollouts_depth_1:
  "rollouts g chooser i_move 1 pos (Suc n) st = Inl IndexError"
  by (cases st) (simp add: rollout_depth_1)

lemma first_moves_unbound:
  "breadth \<le> 0 \<Longrightarrow>
   first_moves g chooser side board flags depth breadth (i_move # rest)
     (moveList, moveTree, averages, None, r) = Inl UnboundLocalError"
  by simp

lemma first_moves_no_samples:
  "depth \<le> 0 \<Longrightarrow> 0 < breadth \<Longrightarrow>
   first_moves g chooser side board flags depth breadth (i_move # rest)
     (moveList, moveTree, averages, path, r) = Inl ZeroDivisionError"
  by (simp add: rollouts_depth_le_0)

lemma first_moves_depth_1:
  "0 < breadth \<Longrightarrow>
   first_moves g chooser side board flags 1 breadth (i_move # rest)
     (moveList, moveTree, averages, path, r) = Inl IndexError"
proof -
  assume "0 < breadth"
  then obtain n where "nat breadth = Suc n" by (cases "nat breadth") auto
  then show ?thesis by (simp add: rollouts_depth_1 del: rollouts.simps)
qed

lemma stochastic_no_moves:
  "generateMoves g side board flags = [] \<Longrightarrow>
   stochastic g side board flags depth breadth chooser r = Inl IndexError"
  by (simp add: stochastic_def)

lemma stochastic_fails:
  assumes "depth < 2 \<or> breadth \<le> 0"
  shows "stochastic g side board flags depth breadth chooser r =
     Inl (if generateMoves g side board flags = [] then IndexError
          else if breadth \<le> 0 then UnboundLocalError
          else if depth \<le> 0 then ZeroDivisionError
          else IndexError)"
proof (cases "generateMoves g side board flags")
  case Nil
  then show ?thesis by (simp add: stochastic_no_moves)
next
  case (Cons m rest)
  show ?thesis
  proof (cases "breadth \<le> 0")
    case True
    with Cons show ?thesis by (simp add: stochastic_def)
  next
    case False
    show ?thesis
    proof (cases "depth \<le> 0")
      case True
      with False Cons show ?thesis by (simp add: stochastic_def first_moves_no_samples del: first_moves.simps)
    next
      case d: False
      with assms False have "depth = 1" by simp
      with False Cons show ?thesis by (simp add: stochastic_def first_moves_depth_1 del: first_moves.simps)
    qed
  qed
qed

lemma walk_example:
  "stochastic walk_game False 0 () 2 2 round_robin 0 =
     Inr (Fin (23 / 2), [1, 2],
          MTree [(1, MTree [(1, MTree []), (2, MTree [])]), (2, MTree [(1, MTree []), (2, MTree [])])])"
  by code_simp

text \<open>
  C10. The stochastic search returns a result only for a depth of at least 2. With a legal
  first move and a breadth of at least 1, depth 1 raises \<^verbatim>\<open>IndexError\<close> (\<^verbatim>\<open>path[-1]\<close> on
  the empty rollout path in \<^verbatim>\<open>backtrackPath\<close>) and depth 0 raises
  \<^verbatim>\<open>ZeroDivisionError\<close> (the average of no samples).
\<close>

theorem stochastic_needs_depth_two:
  "(stochastic g side board flags depth breadth chooser r = Inr res \<longrightarrow> 2 \<le> depth) \<and>
   (generateMoves g side board flags \<noteq> [] \<and> 1 \<le> breadth \<longrightarrow>
      stochastic g side board flags 1 breadth chooser r = Inl IndexError \<and>
      stochastic g side board flags 0 breadth chooser r = Inl ZeroDivisionError)"
proof (intro conjI impI)
  assume "stochastic g side board flags depth breadth chooser r = Inr res"
  then show "2 \<le> depth"
    using stochastic_fails[of depth breadth g side board flags chooser r] by (cases "depth < 2") auto
next
  assume "generateMoves g side board flags \<noteq> [] \<and> 1 \<le> breadth"
  then show "stochastic g side board flags 1 breadth chooser r = Inl IndexError"
    using stochastic_fails[of 1 breadth g side board flags chooser r] by simp
next
  assume "generateMoves g side board flags \<noteq> [] \<and> 1 \<le> breadth"
  then show "stochastic g side board flags 0 breadth chooser r = Inl ZeroDivisionError"
    using stochastic_fails[of 0 breadth g side board flags chooser r] by simp
qed

theorem stochastic_needs_depth_two_witness:
  "stochastic walk_game False 0 () 2 2 round_robin 0 =
     Inr (Fin (23 / 2), [1, 2],
          MTree [(1, MTree [(1, MTree []), (2, MTree [])]), (2, MTree [(1, MTree []), (2, MTree [])])]) \<and>
   (2::int) \<le> 2 \<and>
   generateMoves walk_game False 0 () \<noteq> [] \<and> (1::int) \<le> 2 \<and>
   stochastic walk_game False 0 () 1 2 round_robin 0 = Inl IndexError \<and>
   stochastic walk_game False 0 () 0 2 round_robin 0 = Inl ZeroDivisionError"
proof -
  have m: "generateMoves walk_game False 0 () \<noteq> [] \<and> (1::int) \<le> 2"
    by (simp add: walk_game_def)
  from stochastic_needs_depth_two[of walk_game False 0 "()" 2 2 round_robin 0] m walk_example
  show ?thesis by simp
qed

section \<open>Arguments outside their range\<close>

lemma minimax_py_negative_no_moves:
  "depth < 0 \<Longrightarrow> generateMoves g side board flags = [] \<Longrightarrow>
   minimax_py (Suc stack) g side board flags depth = Inr (if side then PInf else MInf, [None], MTree [])"
  by simp

lemma alphabeta_py_negative_no_moves:
  "depth < 0 \<Longrightarrow> generateMoves g side board flags = [] \<Longrightarrow>
   alphabeta_py (Suc stack) g side board flags depth alpha beta =
     Inr (if side then PInf else MInf, [None], MTree [])"
  by simp

lemma minimax_py_negative_overflow:
  "depth < 0 \<Longrightarrow> \<forall>side board flags. generateMoves g side board flags \<noteq> [] \<Longrightarrow>
   minimax_py stack g side board flags depth = Inl RecursionError"
proof (induction stack arbitrary: depth side board flags)
  case 0
  show ?case by simp
next
  case (Suc stack)
  from Suc.prems(2) obtain m rest where ms: "generateMoves g side board flags = m # rest"
    by (cases "generateMoves g side board flags") auto
  obtain s' b' f' where mk: "makeMove g side board m flags = (s', b', f')"
    by (cases "makeMove g side board m flags")
  from Suc.prems have "depth - 1 < 0" by simp
  from Suc.IH[OF this Suc.prems(2)]
  have "minimax_py stack g s' b' f' (depth - 1) = Inl RecursionError" .
  with Suc.prems(1) ms mk show ?case by (cases side) simp_all
qed

lemma alphabeta_py_negative_overflow:
  "depth < 0 \<Longrightarrow> \<forall>side board flags. generateMoves g side board flags \<noteq> [] \<Longrightarrow>
   alphabeta_py stack g side board flags depth alpha beta = Inl RecursionError"
proof (induction stack arbitrary: depth side board flags alpha beta)
  case 0
  show ?case by simp
next
  case (Suc stack)
  from Suc.prems(2) obtain m rest where ms: "generateMoves g side board flags = m # rest"
    by (cases "generateMoves g side board flags") auto
  obtain s' b' f' where mk: "makeMove g side board m flags = (s', b', f')"
    by (cases "makeMove g side board m flags")
  from Suc.prems have "depth - 1 < 0" by simp
  from Suc.IH[OF this Suc.prems(2)]
  have "alphabeta_py stack g s' b' f' (depth - 1) alpha beta = Inl RecursionError" .
  with Suc.prems(1) ms mk show ?case by (cases side) simp_all
qed

text \<open>
  C8, as the code has it. No search checks its arguments. The stochastic search with a
  negative depth or a breadth that is not positive never returns a result, but through
  the errors it runs into on the way: \<^verbatim>\<open>IndexError\<close> at the final \<^verbatim>\<open>moveList[min_idx]\<close>
  when there is no first move, else \<^verbatim>\<open>UnboundLocalError\<close> at \<^verbatim>\<open>path.insert\<close> when the
  breadth is not positive, else \<^verbatim>\<open>ZeroDivisionError\<close> at the average. Minimax and
  alphabeta with a negative depth skip the base case: on a position without a legal move
  they return the initial locals as a result, and in a game where every position has a
  move they recurse until the stack is used up.
\<close>

theorem arguments_are_not_validated:
  "(depth < 0 \<or> breadth \<le> 0 \<longrightarrow>
      stochastic g side board flags depth breadth chooser r =
        Inl (if generateMoves g side board flags = [] then IndexError
             else if breadth \<le> 0 then UnboundLocalError else ZeroDivisionError)) \<and>
   (depth < 0 \<and> generateMoves g side board flags = [] \<longrightarrow>
      minimax_py (Suc stack) g side board flags depth =
        Inr (if side then PInf else MInf, [None], MTree []) \<and>
      alphabeta_py (Suc stack) g side board flags depth alpha beta =
        Inr (if side then PInf else MInf, [None], MTree [])) \<and>
   (depth < 0 \<and> (\<forall>side board flags. generateMoves g side board flags \<noteq> []) \<longrightarrow>
      minimax_py stack g side board flags depth = Inl RecursionError \<and>
      alphabeta_py stack g side board flags depth alpha beta = Inl RecursionError)"
proof (intro conjI impI)
  assume "depth < 0 \<or> breadth \<le> 0"
  then have "depth < 2 \<or> breadth \<le> 0" by auto
  from stochastic_fails[OF this, of g side board flags chooser r] \<open>depth < 0 \<or> breadth \<le> 0\<close>
  show "stochastic g side board flags depth breadth chooser r =
        Inl (if generateMoves g side board flags = [] then IndexError
             else if breadth \<le> 0 then UnboundLocalError else ZeroDivisionError)"
    by auto
next
  assume "depth < 0 \<and> generateMoves g side board flags = []"
  then show "minimax_py (Suc stack) g side board flags depth =
        Inr (if side then PInf else MInf, [None], MTree [])"
    by (simp add: minimax_py_negative_no_moves del: minimax_py.simps)
next
  assume "depth < 0 \<and> generateMoves g side board flags = []"
  then show "alphabeta_py (Suc stack) g side board flags depth alpha beta =
        Inr (if side then PInf else MInf, [None], MTree [])"
    by (simp add: alphabeta_py_negative_no_moves del: alphabeta_py.simps)
next
  assume "depth < 0 \<and> (\<forall>side board flags. generateMoves g side board flags \<noteq> [])"
  then show "minimax_py stack g side board flags depth = Inl RecursionError"
    by (simp add: minimax_py_negative_overflow)
next
  assume "depth < 0 \<and> (\<forall>side board flags. generateMoves g side board flags \<noteq> [])"
  then show "alphabeta_py stack g side board flags depth alpha beta = Inl RecursionError"
    by (simp add: alphabeta_py_negative_overflow)
qed

theorem arguments_are_not_validated_witness:
  "(- 1 :: int) < 0 \<and> generateMoves stuck_game False 2 () = [] \<and>
   stochastic stuck_game False 2 () (- 1) 1 round_robin 0 = Inl IndexError \<and>
   minimax_py (Suc 0) stuck_game False 2 () (- 1) = Inr (MInf, [None], MTree []) \<and>
   alphabeta_py (Suc 0) stuck_game False 2 () (- 1) MInf PInf = Inr (MInf, [None], MTree []) \<and>
   (\<forall>side board flags. generateMoves walk_game side board flags \<noteq> []) \<and>
   stochastic walk_game False 0 () (- 1) 1 round_robin 0 = Inl ZeroDivisionError \<and>
   stochastic walk_game False 0 () 2 0 round_robin 0 = Inl UnboundLocalError \<and>
   minimax_py 1000 walk_game False 0 () (- 1) = Inl RecursionError \<and>
   alphabeta_py 1000 walk_game False 0 () (- 1) MInf PInf = Inl RecursionError"
proof -
  have s: "generateMoves stuck_game False 2 () = []" by (simp add: stuck_game_def)
  have w: "\<forall>side board flags. generateMoves walk_game side board flags \<noteq> []"
    by (simp add: walk_game_def)
  from arguments_are_not_validated[of "- 1" 1 stuck_game False 2 "()" round_robin 0 0 MInf PInf]
    arguments_are_not_validated[of "- 1" 1 walk_game False 0 "()" round_robin 0 1000 MInf PInf]
    arguments_are_not_validated[of 2 0 walk_game False 0 "()" round_robin 0 1000 MInf PInf]
    s w
  show ?thesis by simp
qed

text \<open>
  C8, as the claim states it, fails: with depth \<open>-1\<close> on board 2 of \<open>stuck_game\<close>
  minimax and alphabeta return a result.
\<close>

theorem negative_depth_returns_a_result:
  "minimax_py 1 stuck_game False 2 () (- 1) = Inr (MInf, [None], MTree []) \<and>
   alphabeta_py 1 stuck_game False 2 () (- 1) MInf PInf = Inr (MInf, [None], MTree [])"
  by (simp add: stuck_game_def)

section \<open>What the stochastic search returns\<close>

lemma dict_update_single [simp]: "dict_update d [(k, v)] = AList.update k v d"
  by (simp add: dict_update_def)

lemma dict_update_Nil [simp]: "dict_update d [] = d"
  by (simp add: dict_update_def)






lemma merge_chains_Nil [simp]: "merge_chains enc [] sub = sub"
  by (simp add: merge_chains_def)

lemma merge_chains_Cons [simp]:
  "merge_chains enc (q # qs) sub = merge_chains enc qs (dict_update sub (entries (chain enc q)))"
  by (simp add: merge_chains_def)


















end
